theory Spec2Isabelle
  imports Main
begin

section \<open>ResourceRing: dining\_philosophers.c\<close>

text \<open>
  The philosophers are threads over shared globals. A thread is a program counter plus its
  loop counter \<open>i\<close>; one step of the model is one statement of \<open>philosopher\<close>. A blocking
  call (\<open>sem_wait\<close> on a zero semaphore, \<open>pthread_mutex_lock\<close> on a held mutex) has no step:
  the step function returns \<open>None\<close> and the thread stays where it is. The scheduler is any
  sequence of thread ids. \<open>think\<close> and \<open>eat\<close> only print and sleep.
\<close>

datatype phil_pc =
    PLoop          \<comment> \<open>\<open>for (...; i < cycles_per_philosopher; ...)\<close>, the test\<close>
  | PThink         \<comment> \<open>\<open>think(id)\<close>\<close>
  | PSemWait       \<comment> \<open>\<open>sem_wait(&waiter)\<close>\<close>
  | PLockFirst     \<comment> \<open>first \<open>pthread_mutex_lock\<close> of the taken branch\<close>
  | PLockSecond    \<comment> \<open>second \<open>pthread_mutex_lock\<close> of the taken branch\<close>
  | PEat           \<comment> \<open>\<open>eat(id, i)\<close>\<close>
  | PUnlockLeft    \<comment> \<open>\<open>pthread_mutex_unlock(&forks[left])\<close>\<close>
  | PUnlockRight   \<comment> \<open>\<open>pthread_mutex_unlock(&forks[right])\<close>\<close>
  | PSemPost       \<comment> \<open>\<open>sem_post(&waiter)\<close>, then \<open>i++\<close>\<close>
  | PFinish        \<comment> \<open>the closing \<open>printf\<close>\<close>
  | PDone          \<comment> \<open>\<open>return NULL\<close>\<close>

datatype ring_event =
    LoopTest bool | Think | SemWait | Lock nat | Eat | Unlock nat | SemPost | Finish

record ring =
  num_philosophers :: nat
  cycles_per_philosopher :: int
  forks :: "nat option list"       \<comment> \<open>one mutex per fork: its owner, \<open>None\<close> when free\<close>
  waiter :: nat                    \<comment> \<open>the value of the semaphore\<close>
  phils :: "(phil_pc \<times> int) list"  \<comment> \<open>per thread: program counter and \<open>i\<close>\<close>

definition left :: "nat \<Rightarrow> nat" where
  "left pid = pid"

definition right :: "ring \<Rightarrow> nat \<Rightarrow> nat" where
  "right s pid = (pid + 1) mod num_philosophers s"

text \<open>The fork locked first and the fork locked second, by the branch of \<open>if (left < right)\<close>.\<close>

definition first_fork :: "ring \<Rightarrow> nat \<Rightarrow> nat" where
  "first_fork s pid = (if left pid < right s pid then left pid else right s pid)"

definition second_fork :: "ring \<Rightarrow> nat \<Rightarrow> nat" where
  "second_fork s pid = (if left pid < right s pid then right s pid else left pid)"

definition goto :: "nat \<Rightarrow> phil_pc \<Rightarrow> ring \<Rightarrow> ring" where
  "goto pid p s = s\<lparr>phils := (phils s)[pid := (p, snd (phils s ! pid))]\<rparr>"

definition mutex_lock :: "nat \<Rightarrow> nat \<Rightarrow> ring \<Rightarrow> ring option" where
  "mutex_lock pid f s =
     (if forks s ! f = None then Some (s\<lparr>forks := (forks s)[f := Some pid]\<rparr>) else None)"

definition mutex_unlock :: "nat \<Rightarrow> ring \<Rightarrow> ring" where
  "mutex_unlock f s = s\<lparr>forks := (forks s)[f := None]\<rparr>"

definition philosopher :: "nat \<Rightarrow> ring \<Rightarrow> (ring_event \<times> ring) option" where
  "philosopher pid s =
     (if length (phils s) \<le> pid then None
      else case phils s ! pid of (p, i) \<Rightarrow>
        (case p of
           PLoop \<Rightarrow>
             if i < cycles_per_philosopher s
             then Some (LoopTest True, goto pid PThink s)
             else Some (LoopTest False, goto pid PFinish s)
         | PThink \<Rightarrow> Some (Think, goto pid PSemWait s)
         | PSemWait \<Rightarrow>
             if 0 < waiter s
             then Some (SemWait, goto pid PLockFirst (s\<lparr>waiter := waiter s - 1\<rparr>))
             else None
         | PLockFirst \<Rightarrow>
             (case mutex_lock pid (first_fork s pid) s of
                None \<Rightarrow> None
              | Some s' \<Rightarrow> Some (Lock (first_fork s pid), goto pid PLockSecond s'))
         | PLockSecond \<Rightarrow>
             (case mutex_lock pid (second_fork s pid) s of
                None \<Rightarrow> None
              | Some s' \<Rightarrow> Some (Lock (second_fork s pid), goto pid PEat s'))
         | PEat \<Rightarrow> Some (Eat, goto pid PUnlockLeft s)
         | PUnlockLeft \<Rightarrow>
             Some (Unlock (left pid), goto pid PUnlockRight (mutex_unlock (left pid) s))
         | PUnlockRight \<Rightarrow>
             Some (Unlock (right s pid), goto pid PSemPost (mutex_unlock (right s pid) s))
         | PSemPost \<Rightarrow>
             Some (SemPost, s\<lparr>waiter := waiter s + 1, phils := (phils s)[pid := (PLoop, i + 1)]\<rparr>)
         | PFinish \<Rightarrow> Some (Finish, goto pid PDone s)
         | PDone \<Rightarrow> None))"

text \<open>
  The state \<open>main\<close> has built when the threads start: \<open>n\<close> free forks, the waiter
  initialised to \<open>num_philosophers - 1\<close>, every thread at the head of its loop with \<open>i = 0\<close>.
\<close>

definition ring_init :: "nat \<Rightarrow> int \<Rightarrow> ring" where
  "ring_init n c =
     \<lparr>num_philosophers = n, cycles_per_philosopher = c, forks = replicate n None,
      waiter = n - 1, phils = replicate n (PLoop, 0)\<rparr>"

text \<open>Running a schedule: the listed threads step in turn; a blocked thread cannot be run.\<close>

fun ring_exec :: "nat list \<Rightarrow> ring \<Rightarrow> (ring_event list \<times> ring) option" where
  "ring_exec [] s = Some ([], s)"
| "ring_exec (pid # sched) s =
     (case philosopher pid s of
        None \<Rightarrow> None
      | Some (e, s') \<Rightarrow>
          (case ring_exec sched s' of
             None \<Rightarrow> None
           | Some (es, s'') \<Rightarrow> Some (e # es, s'')))"

subsection \<open>ResourceRing: invariants and the termination measure\<close>

text \<open>
  A thread is admitted from the return of \<open>sem_wait\<close> until it has executed
  \<open>sem_post\<close>: it holds one ticket of the waiter.
\<close>

definition admitted :: "phil_pc \<Rightarrow> bool" where
  "admitted p = (p = PLockFirst \<or> p = PLockSecond \<or> p = PEat \<or> p = PUnlockLeft \<or> p = PUnlockRight \<or> p = PSemPost)"

text \<open>The forks a thread has locked and not yet unlocked, read off its program counter.\<close>

definition held :: "ring \<Rightarrow> nat \<Rightarrow> nat set" where
  "held s pid =
     (case fst (phils s ! pid) of
        PLockSecond \<Rightarrow> {first_fork s pid}
      | PEat \<Rightarrow> {left pid, right s pid}
      | PUnlockLeft \<Rightarrow> {left pid, right s pid}
      | PUnlockRight \<Rightarrow> {right s pid}
      | _ \<Rightarrow> {})"

definition tickets_out :: "ring \<Rightarrow> nat" where
  "tickets_out s = length (filter (\<lambda>t. admitted (fst t)) (phils s))"

text \<open>
  The invariant of the ring: the arrays have \<open>num_philosophers\<close> entries, the waiter's value
  plus the tickets handed out is \<open>num_philosophers - 1\<close>, and a fork's mutex is owned by
  exactly the thread that holds it.
\<close>

definition ring_inv :: "ring \<Rightarrow> bool" where
  "ring_inv s =
     (length (forks s) = num_philosophers s \<and> length (phils s) = num_philosophers s \<and>
      waiter s + tickets_out s + 1 = num_philosophers s \<and>
      (\<forall>f < num_philosophers s. \<forall>pid.
         forks s ! f = Some pid \<longleftrightarrow> (pid < num_philosophers s \<and> f \<in> held s pid)))"

text \<open>
  The number of statements a thread has still to execute: nine per remaining round of the
  loop, the final loop test and the closing \<open>printf\<close>.
\<close>

definition remaining_of :: "int \<Rightarrow> phil_pc \<times> int \<Rightarrow> nat" where
  "remaining_of c t =
     (case t of (p, i) \<Rightarrow>
        (case p of
           PLoop \<Rightarrow> 9 * nat (c - i) + 2
         | PThink \<Rightarrow> 9 * nat (c - i - 1) + 10
         | PSemWait \<Rightarrow> 9 * nat (c - i - 1) + 9
         | PLockFirst \<Rightarrow> 9 * nat (c - i - 1) + 8
         | PLockSecond \<Rightarrow> 9 * nat (c - i - 1) + 7
         | PEat \<Rightarrow> 9 * nat (c - i - 1) + 6
         | PUnlockLeft \<Rightarrow> 9 * nat (c - i - 1) + 5
         | PUnlockRight \<Rightarrow> 9 * nat (c - i - 1) + 4
         | PSemPost \<Rightarrow> 9 * nat (c - i - 1) + 3
         | PFinish \<Rightarrow> 1
         | PDone \<Rightarrow> 0))"

definition remaining :: "ring \<Rightarrow> nat" where
  "remaining s = sum_list (map (remaining_of (cycles_per_philosopher s)) (phils s))"

text \<open>Thread \<open>pid\<close> is at a \<open>pthread_mutex_lock\<close> on fork \<open>f\<close>.\<close>

definition waits_for :: "ring \<Rightarrow> nat \<Rightarrow> nat \<Rightarrow> bool" where
  "waits_for s pid f =
     (fst (phils s ! pid) = PLockFirst \<and> first_fork s pid = f \<or>
      fst (phils s ! pid) = PLockSecond \<and> second_fork s pid = f)"

section \<open>MonitorQueue: tsqueue.c and tsqueue.go\<close>

text \<open>
  The C queue is a singly linked list of nodes obtained from \<open>malloc\<close>, with a head and a
  tail pointer. Memory is a partial map from addresses to nodes: an address outside its
  domain is not allocated. A pointer is an \<open>addr option\<close>, \<open>None\<close> for \<open>NULL\<close>.
\<close>

type_synonym addr = nat

record Node =
  val :: int                 \<comment> \<open>the field \<open>value\<close>\<close>
  nxt :: "addr option"       \<comment> \<open>the field \<open>next\<close>\<close>

record ThreadSafeQueue =
  head :: "addr option"
  tail :: "addr option"
  nodes :: "addr \<Rightarrow> Node option"   \<comment> \<open>the nodes allocated and not yet freed\<close>

datatype queue_error =
    MallocFailed       \<comment> \<open>\<open>perror("malloc"); exit(EXIT_FAILURE)\<close>\<close>
  | InvalidPointer     \<comment> \<open>a read or write through a pointer to memory that is not allocated\<close>

definition queue_init :: "ThreadSafeQueue \<Rightarrow> ThreadSafeQueue" where
  "queue_init q = q\<lparr>head := None, tail := None\<rparr>"

text \<open>
  \<open>enqueue\<close> in two parts: the allocation and initialisation of the node, before the lock is
  taken, and the linking of the node under the lock. \<open>new_node\<close> is what \<open>malloc\<close> returned.
\<close>

definition alloc_node :: "addr option \<Rightarrow> int \<Rightarrow> ThreadSafeQueue \<Rightarrow> queue_error + ThreadSafeQueue" where
  "alloc_node new_node item q =
     (case new_node of
        None \<Rightarrow> Inl MallocFailed
      | Some n \<Rightarrow> Inr (q\<lparr>nodes := (nodes q)(n \<mapsto> \<lparr>val = item, nxt = None\<rparr>)\<rparr>))"

definition link_node :: "addr \<Rightarrow> ThreadSafeQueue \<Rightarrow> queue_error + ThreadSafeQueue" where
  "link_node n q =
     (case tail q of
        None \<Rightarrow> Inr (q\<lparr>head := Some n, tail := Some n\<rparr>)
      | Some t \<Rightarrow>
          (case nodes q t of
             None \<Rightarrow> Inl InvalidPointer
           | Some tn \<Rightarrow> Inr (q\<lparr>tail := Some n, nodes := (nodes q)(t \<mapsto> tn\<lparr>nxt := Some n\<rparr>)\<rparr>)))"

definition enqueue :: "addr option \<Rightarrow> int \<Rightarrow> ThreadSafeQueue \<Rightarrow> queue_error + ThreadSafeQueue" where
  "enqueue new_node item q =
     (case alloc_node new_node item q of
        Inl e \<Rightarrow> Inl e
      | Inr q' \<Rightarrow> link_node (the new_node) q')"

text \<open>
  \<open>dequeue\<close> once the lock is held: while \<open>head\<close> is \<open>NULL\<close> the caller waits; otherwise the
  head node is unlinked, \<open>tail\<close> is reset when the list becomes empty, the node is freed and
  its value returned.
\<close>

datatype dequeue_result =
    Waits                           \<comment> \<open>the loop guard \<open>q->head == NULL\<close> holds\<close>
  | Returns int ThreadSafeQueue     \<comment> \<open>the value returned and the queue left behind\<close>
  | Crashes queue_error

definition dequeue :: "ThreadSafeQueue \<Rightarrow> dequeue_result" where
  "dequeue q =
     (case head q of
        None \<Rightarrow> Waits
      | Some to_free \<Rightarrow>
          (case nodes q to_free of
             None \<Rightarrow> Crashes InvalidPointer
           | Some nd \<Rightarrow>
               let result = val nd;
                   q1 = q\<lparr>head := nxt nd\<rparr>;
                   q2 = (if head q1 = None then q1\<lparr>tail := None\<rparr> else q1)
               in Returns result (q2\<lparr>nodes := (nodes q2)(to_free := None)\<rparr>)))"

text \<open>
  The calls on the queue in the order in which the lock serialises them. An \<open>Enq\<close> names the
  address \<open>malloc\<close> returns, which is never one that is still allocated. A \<open>Deq\<close> on an empty
  queue cannot be the next call to complete: the consumer waits.
\<close>

datatype queue_op = Enq addr int | Deq

fun run_queue :: "queue_op list \<Rightarrow> ThreadSafeQueue \<Rightarrow> (int list \<times> ThreadSafeQueue) option" where
  "run_queue [] q = Some ([], q)"
| "run_queue (Enq a x # ops) q =
     (if nodes q a \<noteq> None then None
      else case enqueue (Some a) x q of
             Inl e \<Rightarrow> None
           | Inr q' \<Rightarrow> run_queue ops q')"
| "run_queue (Deq # ops) q =
     (case dequeue q of
        Returns v q' \<Rightarrow>
          (case run_queue ops q' of
             None \<Rightarrow> None
           | Some (vs, q'') \<Rightarrow> Some (v # vs, q''))
      | _ \<Rightarrow> None)"

fun enqueued :: "queue_op list \<Rightarrow> int list" where
  "enqueued [] = []"
| "enqueued (Enq a x # ops) = x # enqueued ops"
| "enqueued (Deq # ops) = enqueued ops"

text \<open>The Go queue is a slice: \<open>Enqueue\<close> appends, \<open>Dequeue\<close> waits while the slice is empty.\<close>

definition Enqueue :: "int \<Rightarrow> int list \<Rightarrow> int list" where
  "Enqueue item items = items @ [item]"

definition Dequeue :: "int list \<Rightarrow> (int \<times> int list) option" where
  "Dequeue items = (case items of [] \<Rightarrow> None | item # rest \<Rightarrow> Some (item, rest))"

subsection \<open>MonitorQueue: the list a queue represents\<close>

text \<open>
  \<open>chain m p cells\<close>: starting at pointer \<open>p\<close> and following \<open>next\<close>, memory \<open>m\<close> holds exactly
  the nodes at the addresses of \<open>cells\<close>, with the values of \<open>cells\<close>, and ends in \<open>NULL\<close>.
\<close>

fun chain :: "(addr \<Rightarrow> Node option) \<Rightarrow> addr option \<Rightarrow> (addr \<times> int) list \<Rightarrow> bool" where
  "chain m p [] = (p = None)"
| "chain m p ((a, v) # cells) =
     (p = Some a \<and> (case m a of None \<Rightarrow> False | Some nd \<Rightarrow> val nd = v \<and> chain m (nxt nd) cells))"

definition represents :: "ThreadSafeQueue \<Rightarrow> (addr \<times> int) list \<Rightarrow> bool" where
  "represents q cells =
     (chain (nodes q) (head q) cells \<and> distinct (map fst cells) \<and>
      tail q = (if cells = [] then None else Some (fst (last cells))))"


subsection \<open>MonitorQueue: the threads, the mutex and the condition variable\<close>

text \<open>
  Threads call \<open>enqueue\<close> and \<open>dequeue\<close> concurrently. A step of a thread is one statement of
  the call it is in. A step is \<open>Blocked\<close> when the thread cannot run that statement now,
  \<open>Stops e\<close> when the process ends there, and \<open>Next s\<close> otherwise.
\<close>

datatype ('e, 'a) step = Blocked | Stops 'e | Next 'a

datatype mq_call = CallEnqueue int | CallDequeue

datatype mq_pc =
    Idle               \<comment> \<open>between two calls\<close>
  | EMalloc int        \<comment> \<open>\<open>malloc\<close>, the \<open>NULL\<close> check and the two stores into the new node\<close>
  | ELock addr         \<comment> \<open>\<open>pthread_mutex_lock(&q->lock)\<close> of \<open>enqueue\<close>\<close>
  | ELink addr         \<comment> \<open>the \<open>if (q->tail == NULL)\<close> statement\<close>
  | ESignal            \<comment> \<open>\<open>pthread_cond_signal(&q->not_empty)\<close>\<close>
  | EUnlock            \<comment> \<open>\<open>pthread_mutex_unlock\<close> and return\<close>
  | DLock              \<comment> \<open>\<open>pthread_mutex_lock(&q->lock)\<close> of \<open>dequeue\<close>\<close>
  | DTest              \<comment> \<open>the loop test \<open>q->head == NULL\<close>\<close>
  | DWait              \<comment> \<open>inside \<open>pthread_cond_wait\<close>: mutex released, asleep\<close>
  | DWake              \<comment> \<open>inside \<open>pthread_cond_wait\<close>: woken, taking the mutex again\<close>
  | DTake              \<comment> \<open>from \<open>to_free = q->head\<close> to \<open>free(to_free)\<close>\<close>
  | DUnlock int        \<comment> \<open>\<open>pthread_mutex_unlock\<close> and \<open>return result\<close>\<close>

record mq_thread =
  tpc :: mq_pc
  todo :: "mq_call list"     \<comment> \<open>the calls the thread will still make\<close>
  got :: "int list"          \<comment> \<open>the values its dequeue calls have returned\<close>

record monitor =
  queue :: ThreadSafeQueue
  lock :: "nat option"       \<comment> \<open>the owner of \<open>q->lock\<close>\<close>
  threads :: "mq_thread list"

definition set_thread :: "nat \<Rightarrow> mq_thread \<Rightarrow> monitor \<Rightarrow> monitor" where
  "set_thread t th s = s\<lparr>threads := (threads s)[t := th]\<rparr>"

text \<open>
  \<open>m\<close> is what \<open>malloc\<close> returns if the step calls it; \<open>malloc\<close> never returns an address
  that is still allocated. A thread asleep in \<open>pthread_cond_wait\<close> can wake at any time:
  by a signal, by the broadcast of \<open>main\<close>, or spuriously. So \<open>pthread_cond_signal\<close> itself
  changes nothing in the model.
\<close>

definition monitor_step :: "nat \<Rightarrow> addr option \<Rightarrow> monitor \<Rightarrow> (queue_error, monitor) step" where
  "monitor_step t m s =
     (if length (threads s) \<le> t then Blocked
      else let th = threads s ! t in
        case tpc th of
          Idle \<Rightarrow>
            (case todo th of
               [] \<Rightarrow> Blocked
             | CallEnqueue x # cs \<Rightarrow> Next (set_thread t (th\<lparr>tpc := EMalloc x, todo := cs\<rparr>) s)
             | CallDequeue # cs \<Rightarrow> Next (set_thread t (th\<lparr>tpc := DLock, todo := cs\<rparr>) s))
        | EMalloc x \<Rightarrow>
            (case m of
               None \<Rightarrow> Stops MallocFailed
             | Some a \<Rightarrow>
                 if nodes (queue s) a \<noteq> None then Blocked
                 else (case alloc_node m x (queue s) of
                         Inl e \<Rightarrow> Stops e
                       | Inr q' \<Rightarrow> Next (set_thread t (th\<lparr>tpc := ELock a\<rparr>) (s\<lparr>queue := q'\<rparr>))))
        | ELock a \<Rightarrow>
            if lock s = None
            then Next (set_thread t (th\<lparr>tpc := ELink a\<rparr>) (s\<lparr>lock := Some t\<rparr>))
            else Blocked
        | ELink a \<Rightarrow>
            (case link_node a (queue s) of
               Inl e \<Rightarrow> Stops e
             | Inr q' \<Rightarrow> Next (set_thread t (th\<lparr>tpc := ESignal\<rparr>) (s\<lparr>queue := q'\<rparr>)))
        | ESignal \<Rightarrow> Next (set_thread t (th\<lparr>tpc := EUnlock\<rparr>) s)
        | EUnlock \<Rightarrow> Next (set_thread t (th\<lparr>tpc := Idle\<rparr>) (s\<lparr>lock := None\<rparr>))
        | DLock \<Rightarrow>
            if lock s = None
            then Next (set_thread t (th\<lparr>tpc := DTest\<rparr>) (s\<lparr>lock := Some t\<rparr>))
            else Blocked
        | DTest \<Rightarrow>
            if head (queue s) = None
            then Next (set_thread t (th\<lparr>tpc := DWait\<rparr>) (s\<lparr>lock := None\<rparr>))
            else Next (set_thread t (th\<lparr>tpc := DTake\<rparr>) s)
        | DWait \<Rightarrow> Next (set_thread t (th\<lparr>tpc := DWake\<rparr>) s)
        | DWake \<Rightarrow>
            if lock s = None
            then Next (set_thread t (th\<lparr>tpc := DTest\<rparr>) (s\<lparr>lock := Some t\<rparr>))
            else Blocked
        | DTake \<Rightarrow>
            (case dequeue (queue s) of
               Waits \<Rightarrow> Stops InvalidPointer
             | Crashes e \<Rightarrow> Stops e
             | Returns v q' \<Rightarrow> Next (set_thread t (th\<lparr>tpc := DUnlock v\<rparr>) (s\<lparr>queue := q'\<rparr>)))
        | DUnlock v \<Rightarrow>
            Next (set_thread t (th\<lparr>tpc := Idle, got := got th @ [v]\<rparr>) (s\<lparr>lock := None\<rparr>)))"

definition monitor_init :: "ThreadSafeQueue \<Rightarrow> mq_call list list \<Rightarrow> monitor" where
  "monitor_init q0 progs =
     \<lparr>queue = queue_init q0, lock = None,
      threads = map (\<lambda>cs. \<lparr>tpc = Idle, todo = cs, got = []\<rparr>) progs\<rparr>"

fun monitor_exec :: "(nat \<times> addr option) list \<Rightarrow> monitor \<Rightarrow> monitor option" where
  "monitor_exec [] s = Some s"
| "monitor_exec ((t, m) # sched) s =
     (case monitor_step t m s of
        Next s' \<Rightarrow> monitor_exec sched s'
      | _ \<Rightarrow> None)"

text \<open>The statements between taking and releasing \<open>q->lock\<close>.\<close>

fun holds_lock :: "mq_pc \<Rightarrow> bool" where
  "holds_lock (ELink a) = True"
| "holds_lock ESignal = True"
| "holds_lock EUnlock = True"
| "holds_lock DTest = True"
| "holds_lock DTake = True"
| "holds_lock (DUnlock v) = True"
| "holds_lock _ = False"

text \<open>The node a thread has allocated and not yet linked.\<close>

fun pending :: "mq_pc \<Rightarrow> addr option" where
  "pending (ELock a) = Some a"
| "pending (ELink a) = Some a"
| "pending _ = None"

definition monitor_inv :: "monitor \<Rightarrow> (addr \<times> int) list \<Rightarrow> bool" where
  "monitor_inv s cells =
     (represents (queue s) cells \<and>
      (\<forall>t. lock s = Some t \<longleftrightarrow> t < length (threads s) \<and> holds_lock (tpc (threads s ! t))) \<and>
      (\<forall>t < length (threads s). tpc (threads s ! t) = DTake \<longrightarrow> cells \<noteq> []) \<and>
      (\<forall>t < length (threads s). \<forall>a. pending (tpc (threads s ! t)) = Some a \<longrightarrow>
         a \<notin> fst ` set cells \<and> (\<exists>x. nodes (queue s) a = Some \<lparr>val = x, nxt = None\<rparr>) \<and>
         (\<forall>u < length (threads s). u \<noteq> t \<longrightarrow> pending (tpc (threads s ! u)) \<noteq> Some a)))"


section \<open>BoundedChannel: producer\_consumer.c\<close>

text \<open>
  The buffer, its two indices, the two semaphores and the mutex are globals; producers and
  consumers are threads. One step of the model is one statement of \<open>producer\<close> or \<open>consumer\<close>.
  Each step reports what it did as an event, so that an execution leaves a trace.
\<close>

datatype chan_pc =
    PrLoop          \<comment> \<open>producer: the test \<open>i < args->items_to_produce\<close>\<close>
  | PrProduce       \<comment> \<open>\<open>item = produce_item()\<close>\<close>
  | PrWaitEmpty     \<comment> \<open>\<open>sem_wait(&empty_slots)\<close>\<close>
  | PrLock          \<comment> \<open>\<open>pthread_mutex_lock(&mutex_buffer)\<close>\<close>
  | PrStore         \<comment> \<open>\<open>buffer[in] = item\<close> and the \<open>printf\<close>\<close>
  | PrAdvance       \<comment> \<open>\<open>in = (in + 1) % buffer_size\<close>\<close>
  | PrUnlock        \<comment> \<open>\<open>pthread_mutex_unlock(&mutex_buffer)\<close>\<close>
  | PrPostFull      \<comment> \<open>\<open>sem_post(&full_slots)\<close>\<close>
  | PrSleep         \<comment> \<open>\<open>usleep(100000)\<close>, then \<open>i++\<close>\<close>
  | PrDone          \<comment> \<open>\<open>return NULL\<close>\<close>
  | CoWaitFull      \<comment> \<open>consumer: \<open>sem_wait(&full_slots)\<close>\<close>
  | CoLock          \<comment> \<open>\<open>pthread_mutex_lock(&mutex_buffer)\<close>\<close>
  | CoLoad          \<comment> \<open>\<open>item = buffer[out]\<close> and the \<open>printf\<close>\<close>
  | CoAdvance       \<comment> \<open>\<open>out = (out + 1) % buffer_size\<close>\<close>
  | CoUnlock        \<comment> \<open>\<open>pthread_mutex_unlock(&mutex_buffer)\<close>\<close>
  | CoPostEmpty     \<comment> \<open>\<open>sem_post(&empty_slots)\<close>\<close>
  | CoConsume       \<comment> \<open>\<open>consume_item(item)\<close>, then back to the head of \<open>while (1)\<close>\<close>

datatype semaphore = EmptySlots | FullSlots

datatype chan_event =
    Test bool | Produce int | WaitSem semaphore | LockMutex | Store nat int | AdvanceIn nat
  | UnlockMutex | PostSem semaphore | Sleep | Load nat int | AdvanceOut nat | Consume int

datatype chan_error =
    OutOfBounds        \<comment> \<open>an access to \<open>buffer\<close> outside the allocated array\<close>
  | DivisionByZero     \<comment> \<open>\<open>% buffer_size\<close> with \<open>buffer_size = 0\<close>\<close>

record chan_thread =
  th_pc :: chan_pc
  th_i :: int          \<comment> \<open>the loop counter \<open>i\<close> of a producer\<close>
  th_item :: int       \<comment> \<open>the local \<open>item\<close>\<close>

record channel =
  buffer :: "int list"
  buffer_size :: nat
  in_idx :: nat                  \<comment> \<open>the global \<open>in\<close>\<close>
  out :: nat
  empty_slots :: nat
  full_slots :: nat
  mutex_buffer :: "nat option"   \<comment> \<open>the owner of the mutex\<close>
  items_to_produce :: int
  workers :: "chan_thread list"  \<comment> \<open>the consumers, then the producers, as \<open>main\<close> creates them\<close>

definition set_worker :: "nat \<Rightarrow> chan_thread \<Rightarrow> channel \<Rightarrow> channel" where
  "set_worker t th s = s\<lparr>workers := (workers s)[t := th]\<rparr>"

text \<open>\<open>r\<close> is what \<open>rand()\<close> returns if the step calls \<open>produce_item\<close>.\<close>

definition chan_step ::
  "nat \<Rightarrow> nat \<Rightarrow> channel \<Rightarrow> (chan_error, chan_event \<times> channel) step" where
  "chan_step t r s =
     (if length (workers s) \<le> t then Blocked
      else let th = workers s ! t in
        case th_pc th of
          PrLoop \<Rightarrow>
            if th_i th < items_to_produce s
            then Next (Test True, set_worker t (th\<lparr>th_pc := PrProduce\<rparr>) s)
            else Next (Test False, set_worker t (th\<lparr>th_pc := PrDone\<rparr>) s)
        | PrProduce \<Rightarrow>
            Next (Produce (int (r mod 1000)),
                  set_worker t (th\<lparr>th_pc := PrWaitEmpty, th_item := int (r mod 1000)\<rparr>) s)
        | PrWaitEmpty \<Rightarrow>
            if 0 < empty_slots s
            then Next (WaitSem EmptySlots,
                       set_worker t (th\<lparr>th_pc := PrLock\<rparr>) (s\<lparr>empty_slots := empty_slots s - 1\<rparr>))
            else Blocked
        | PrLock \<Rightarrow>
            if mutex_buffer s = None
            then Next (LockMutex, set_worker t (th\<lparr>th_pc := PrStore\<rparr>) (s\<lparr>mutex_buffer := Some t\<rparr>))
            else Blocked
        | PrStore \<Rightarrow>
            if in_idx s < length (buffer s)
            then Next (Store (in_idx s) (th_item th),
                       set_worker t (th\<lparr>th_pc := PrAdvance\<rparr>)
                         (s\<lparr>buffer := (buffer s)[in_idx s := th_item th]\<rparr>))
            else Stops OutOfBounds
        | PrAdvance \<Rightarrow>
            if buffer_size s = 0 then Stops DivisionByZero
            else Next (AdvanceIn ((in_idx s + 1) mod buffer_size s),
                       set_worker t (th\<lparr>th_pc := PrUnlock\<rparr>)
                         (s\<lparr>in_idx := (in_idx s + 1) mod buffer_size s\<rparr>))
        | PrUnlock \<Rightarrow>
            Next (UnlockMutex, set_worker t (th\<lparr>th_pc := PrPostFull\<rparr>) (s\<lparr>mutex_buffer := None\<rparr>))
        | PrPostFull \<Rightarrow>
            Next (PostSem FullSlots,
                  set_worker t (th\<lparr>th_pc := PrSleep\<rparr>) (s\<lparr>full_slots := full_slots s + 1\<rparr>))
        | PrSleep \<Rightarrow> Next (Sleep, set_worker t (th\<lparr>th_pc := PrLoop, th_i := th_i th + 1\<rparr>) s)
        | PrDone \<Rightarrow> Blocked
        | CoWaitFull \<Rightarrow>
            if 0 < full_slots s
            then Next (WaitSem FullSlots,
                       set_worker t (th\<lparr>th_pc := CoLock\<rparr>) (s\<lparr>full_slots := full_slots s - 1\<rparr>))
            else Blocked
        | CoLock \<Rightarrow>
            if mutex_buffer s = None
            then Next (LockMutex, set_worker t (th\<lparr>th_pc := CoLoad\<rparr>) (s\<lparr>mutex_buffer := Some t\<rparr>))
            else Blocked
        | CoLoad \<Rightarrow>
            if out s < length (buffer s)
            then Next (Load (out s) (buffer s ! out s),
                       set_worker t (th\<lparr>th_pc := CoAdvance, th_item := buffer s ! out s\<rparr>) s)
            else Stops OutOfBounds
        | CoAdvance \<Rightarrow>
            if buffer_size s = 0 then Stops DivisionByZero
            else Next (AdvanceOut ((out s + 1) mod buffer_size s),
                       set_worker t (th\<lparr>th_pc := CoUnlock\<rparr>)
                         (s\<lparr>out := (out s + 1) mod buffer_size s\<rparr>))
        | CoUnlock \<Rightarrow>
            Next (UnlockMutex, set_worker t (th\<lparr>th_pc := CoPostEmpty\<rparr>) (s\<lparr>mutex_buffer := None\<rparr>))
        | CoPostEmpty \<Rightarrow>
            Next (PostSem EmptySlots,
                  set_worker t (th\<lparr>th_pc := CoConsume\<rparr>) (s\<lparr>empty_slots := empty_slots s + 1\<rparr>))
        | CoConsume \<Rightarrow> Next (Consume (th_item th), set_worker t (th\<lparr>th_pc := CoWaitFull\<rparr>) s))"

text \<open>
  The state when \<open>main\<close> has created the threads: the array \<open>mem\<close> that \<open>malloc\<close> returned,
  of \<open>buffer_size\<close> cells with whatever they hold, \<open>empty_slots\<close> at \<open>buffer_size\<close>, \<open>full_slots\<close>
  at 0, the consumers created first and then the producers.
\<close>

definition chan_init :: "nat \<Rightarrow> nat \<Rightarrow> int list \<Rightarrow> int \<Rightarrow> channel" where
  "chan_init num_producers num_consumers mem items_per_producer =
     \<lparr>buffer = mem, buffer_size = length mem, in_idx = 0, out = 0,
      empty_slots = length mem, full_slots = 0, mutex_buffer = None,
      items_to_produce = items_per_producer,
      workers = replicate num_consumers \<lparr>th_pc = CoWaitFull, th_i = 0, th_item = 0\<rparr> @
                replicate num_producers \<lparr>th_pc = PrLoop, th_i = 0, th_item = 0\<rparr>\<rparr>"

text \<open>
  An execution: a schedule of thread ids, each with the value \<open>rand()\<close> would return. It
  yields the trace of the events with the thread of each, and the state reached.
\<close>

fun chan_exec ::
  "(nat \<times> nat) list \<Rightarrow> channel \<Rightarrow> ((nat \<times> chan_event) list \<times> channel) option" where
  "chan_exec [] s = Some ([], s)"
| "chan_exec ((t, r) # sched) s =
     (case chan_step t r s of
        Next (e, s') \<Rightarrow>
          (case chan_exec sched s' of
             None \<Rightarrow> None
           | Some (es, s'') \<Rightarrow> Some ((t, e) # es, s''))
      | _ \<Rightarrow> None)"

definition events_of :: "nat \<Rightarrow> (nat \<times> chan_event) list \<Rightarrow> chan_event list" where
  "events_of t tr = map snd (filter (\<lambda>te. fst te = t) tr)"

text \<open>
  The order of the statements of a put and of a take, as a relation between an event of a
  thread and the next event of the same thread. \<open>c\<close> is the capacity.
\<close>

fun put_next :: "nat \<Rightarrow> chan_event \<Rightarrow> chan_event \<Rightarrow> bool" where
  "put_next c (Test b) e = (b \<and> (\<exists>x. e = Produce x))"
| "put_next c (Produce x) e = (e = WaitSem EmptySlots)"
| "put_next c (WaitSem sem) e = (sem = EmptySlots \<and> e = LockMutex)"
| "put_next c LockMutex e = (\<exists>j x. e = Store j x)"
| "put_next c (Store j x) e = (e = AdvanceIn ((j + 1) mod c))"
| "put_next c (AdvanceIn j) e = (e = UnlockMutex)"
| "put_next c UnlockMutex e = (e = PostSem FullSlots)"
| "put_next c (PostSem sem) e = (sem = FullSlots \<and> e = Sleep)"
| "put_next c Sleep e = (\<exists>b. e = Test b)"
| "put_next c _ e = False"

fun take_next :: "nat \<Rightarrow> chan_event \<Rightarrow> chan_event \<Rightarrow> bool" where
  "take_next c (WaitSem sem) e = (sem = FullSlots \<and> e = LockMutex)"
| "take_next c LockMutex e = (\<exists>j x. e = Load j x)"
| "take_next c (Load j x) e = (e = AdvanceOut ((j + 1) mod c))"
| "take_next c (AdvanceOut j) e = (e = UnlockMutex)"
| "take_next c UnlockMutex e = (e = PostSem EmptySlots)"
| "take_next c (PostSem sem) e = (sem = EmptySlots \<and> (\<exists>x. e = Consume x))"
| "take_next c (Consume x) e = (e = WaitSem FullSlots)"
| "take_next c _ e = False"


subsection \<open>BoundedChannel: invariants\<close>

text \<open>A thread is inside a put or a take from its \<open>sem_wait\<close> until its \<open>sem_post\<close>.\<close>

fun between_sems :: "chan_pc \<Rightarrow> bool" where
  "between_sems PrLock = True"
| "between_sems PrStore = True"
| "between_sems PrAdvance = True"
| "between_sems PrUnlock = True"
| "between_sems PrPostFull = True"
| "between_sems CoLock = True"
| "between_sems CoLoad = True"
| "between_sems CoAdvance = True"
| "between_sems CoUnlock = True"
| "between_sems CoPostEmpty = True"
| "between_sems _ = False"

definition in_progress :: "channel \<Rightarrow> nat" where
  "in_progress s = length (filter (\<lambda>th. between_sems (th_pc th)) (workers s))"

text \<open>The statements between taking and releasing \<open>mutex_buffer\<close>.\<close>

fun in_critical :: "chan_pc \<Rightarrow> bool" where
  "in_critical PrStore = True"
| "in_critical PrAdvance = True"
| "in_critical PrUnlock = True"
| "in_critical CoLoad = True"
| "in_critical CoAdvance = True"
| "in_critical CoUnlock = True"
| "in_critical _ = False"

definition chan_inv :: "channel \<Rightarrow> bool" where
  "chan_inv s =
     (length (buffer s) = buffer_size s \<and>
      (0 < buffer_size s \<longrightarrow> in_idx s < buffer_size s \<and> out s < buffer_size s) \<and>
      full_slots s + empty_slots s + in_progress s = buffer_size s \<and>
      (\<forall>t. mutex_buffer s = Some t \<longleftrightarrow>
         t < length (workers s) \<and> in_critical (th_pc (workers s ! t))))"

text \<open>Where a thread stands after its latest event.\<close>

fun after_event :: "channel \<Rightarrow> chan_event \<Rightarrow> chan_pc \<Rightarrow> bool" where
  "after_event s (Test b) p = (p = (if b then PrProduce else PrDone))"
| "after_event s (Produce x) p = (p = PrWaitEmpty)"
| "after_event s (WaitSem sem) p = (p = (case sem of EmptySlots \<Rightarrow> PrLock | FullSlots \<Rightarrow> CoLock))"
| "after_event s LockMutex p = (p = PrStore \<or> p = CoLoad)"
| "after_event s (Store j x) p = (p = PrAdvance \<and> j = in_idx s)"
| "after_event s (AdvanceIn j) p = (p = PrUnlock)"
| "after_event s UnlockMutex p = (p = PrPostFull \<or> p = CoPostEmpty)"
| "after_event s (PostSem sem) p = (p = (case sem of FullSlots \<Rightarrow> PrSleep | EmptySlots \<Rightarrow> CoConsume))"
| "after_event s Sleep p = (p = PrLoop)"
| "after_event s (Load j x) p = (p = CoAdvance \<and> j = out s)"
| "after_event s (AdvanceOut j) p = (p = CoUnlock)"
| "after_event s (Consume x) p = (p = CoWaitFull)"

fun producer_pc :: "chan_pc \<Rightarrow> bool" where
  "producer_pc PrLoop = True"
| "producer_pc PrProduce = True"
| "producer_pc PrWaitEmpty = True"
| "producer_pc PrLock = True"
| "producer_pc PrStore = True"
| "producer_pc PrAdvance = True"
| "producer_pc PrUnlock = True"
| "producer_pc PrPostFull = True"
| "producer_pc PrSleep = True"
| "producer_pc PrDone = True"
| "producer_pc _ = False"

definition trace_ok :: "channel \<Rightarrow> nat \<Rightarrow> chan_event list \<Rightarrow> bool" where
  "trace_ok s t es =
     (let p = th_pc (workers s ! t) in
      (if es = [] then p = PrLoop \<or> p = CoWaitFull else after_event s (last es) p) \<and>
      (if producer_pc p
       then successively (put_next (buffer_size s)) es \<and> (es \<noteq> [] \<longrightarrow> (\<exists>b. hd es = Test b))
       else successively (take_next (buffer_size s)) es \<and> (es \<noteq> [] \<longrightarrow> hd es = WaitSem FullSlots)))"


section \<open>Start-up: the \<open>main\<close> functions\<close>







section \<open>MonitorQueue: the threads of tsqueue.c\<close>

text \<open>
  \<open>producer_thread\<close> and \<open>consumer_thread\<close> around the calls of \<open>enqueue\<close> and \<open>dequeue\<close>, with
  the shared counter \<open>consumed_count\<close> under \<open>count_lock\<close>. One step is one statement; the
  steps inside a call are those of \<open>monitor_step\<close>. \<open>main\<close> creates the producers, then the
  consumers, waits for the producers, broadcasts on \<open>not_empty\<close> and waits for the consumers.
  The broadcast adds no step to the model: a thread asleep in \<open>pthread_cond_wait\<close> can wake
  at any time already.
\<close>

datatype tq_pc =
    PtLoop         \<comment> \<open>producer: the test \<open>i < args->items_to_produce\<close>\<close>
  | PtEnqueue      \<comment> \<open>\<open>item = args->producer_id * 1000 + i\<close>, the \<open>printf\<close>, the call of \<open>enqueue\<close>\<close>
  | PtInEnqueue    \<comment> \<open>inside \<open>enqueue\<close>\<close>
  | PtSleep        \<comment> \<open>\<open>usleep(100000)\<close>, then \<open>i++\<close>\<close>
  | PtExit         \<comment> \<open>\<open>return NULL\<close>\<close>
  | CtLock         \<comment> \<open>consumer: \<open>pthread_mutex_lock(args->count_lock)\<close> at the head of \<open>while (1)\<close>\<close>
  | CtTest         \<comment> \<open>\<open>if (*(args->consumed_count) >= args->total_items)\<close>\<close>
  | CtBreak        \<comment> \<open>\<open>pthread_mutex_unlock(args->count_lock); break;\<close>\<close>
  | CtUnlock       \<comment> \<open>\<open>pthread_mutex_unlock(args->count_lock)\<close>\<close>
  | CtDequeue      \<comment> \<open>the call of \<open>dequeue\<close>\<close>
  | CtInDequeue    \<comment> \<open>inside \<open>dequeue\<close>\<close>
  | CtLock2        \<comment> \<open>\<open>pthread_mutex_lock(args->count_lock)\<close> after the call\<close>
  | CtCount        \<comment> \<open>\<open>(*(args->consumed_count))++\<close>\<close>
  | CtUnlock2      \<comment> \<open>\<open>pthread_mutex_unlock(args->count_lock)\<close>\<close>
  | CtSleep        \<comment> \<open>the \<open>printf\<close> and \<open>usleep(150000)\<close>\<close>
  | CtExit         \<comment> \<open>\<open>return NULL\<close>\<close>

record tq_thread =
  tq_at :: tq_pc
  tq_id :: int          \<comment> \<open>\<open>producer_id\<close> or \<open>consumer_id\<close>\<close>
  tq_i :: int           \<comment> \<open>the loop counter of a producer\<close>

record tsqueue_program =
  tq_monitor :: monitor            \<comment> \<open>the queue, its lock, and each thread's place inside a call\<close>
  consumed_count :: int
  count_lock :: "nat option"       \<comment> \<open>the owner of \<open>count_lock\<close>\<close>
  total_items :: int
  tq_items :: int                  \<comment> \<open>\<open>items_to_produce\<close> of every producer\<close>
  tq_threads :: "tq_thread list"   \<comment> \<open>the producers, then the consumers, as \<open>main\<close> creates them\<close>

definition tq_goto :: "nat \<Rightarrow> tq_pc \<Rightarrow> tsqueue_program \<Rightarrow> tsqueue_program" where
  "tq_goto t p s = s\<lparr>tq_threads := (tq_threads s)[t := (tq_threads s ! t)\<lparr>tq_at := p\<rparr>]\<rparr>"

text \<open>Thread \<open>t\<close> calls \<open>enqueue\<close> or \<open>dequeue\<close>: it has that one call to make.\<close>

definition tq_call :: "nat \<Rightarrow> mq_call \<Rightarrow> tsqueue_program \<Rightarrow> tsqueue_program" where
  "tq_call t c s =
     s\<lparr>tq_monitor :=
         set_thread t ((threads (tq_monitor s) ! t)\<lparr>todo := [c]\<rparr>) (tq_monitor s)\<rparr>"

text \<open>The call of thread \<open>t\<close> has returned.\<close>

definition tq_returned :: "nat \<Rightarrow> tsqueue_program \<Rightarrow> bool" where
  "tq_returned t s =
     (tpc (threads (tq_monitor s) ! t) = Idle \<and> todo (threads (tq_monitor s) ! t) = [])"

definition tq_inside ::
  "nat \<Rightarrow> addr option \<Rightarrow> tq_pc \<Rightarrow> tsqueue_program \<Rightarrow> (queue_error, tsqueue_program) step" where
  "tq_inside t m after s =
     (if tq_returned t s then Next (tq_goto t after s)
      else case monitor_step t m (tq_monitor s) of
             Blocked \<Rightarrow> Blocked
           | Stops e \<Rightarrow> Stops e
           | Next mo \<Rightarrow> Next (s\<lparr>tq_monitor := mo\<rparr>))"

definition tsqueue_step ::
  "nat \<Rightarrow> addr option \<Rightarrow> tsqueue_program \<Rightarrow> (queue_error, tsqueue_program) step" where
  "tsqueue_step t m s =
     (if length (tq_threads s) \<le> t then Blocked
      else let th = tq_threads s ! t in
        case tq_at th of
          PtLoop \<Rightarrow>
            if tq_i th < tq_items s then Next (tq_goto t PtEnqueue s)
            else Next (tq_goto t PtExit s)
        | PtEnqueue \<Rightarrow>
            Next (tq_goto t PtInEnqueue (tq_call t (CallEnqueue (tq_id th * 1000 + tq_i th)) s))
        | PtInEnqueue \<Rightarrow> tq_inside t m PtSleep s
        | PtSleep \<Rightarrow>
            Next (s\<lparr>tq_threads := (tq_threads s)[t := th\<lparr>tq_at := PtLoop, tq_i := tq_i th + 1\<rparr>]\<rparr>)
        | PtExit \<Rightarrow> Blocked
        | CtLock \<Rightarrow>
            if count_lock s = None then Next (tq_goto t CtTest (s\<lparr>count_lock := Some t\<rparr>))
            else Blocked
        | CtTest \<Rightarrow>
            if total_items s \<le> consumed_count s then Next (tq_goto t CtBreak s)
            else Next (tq_goto t CtUnlock s)
        | CtBreak \<Rightarrow> Next (tq_goto t CtExit (s\<lparr>count_lock := None\<rparr>))
        | CtUnlock \<Rightarrow> Next (tq_goto t CtDequeue (s\<lparr>count_lock := None\<rparr>))
        | CtDequeue \<Rightarrow> Next (tq_goto t CtInDequeue (tq_call t CallDequeue s))
        | CtInDequeue \<Rightarrow> tq_inside t m CtLock2 s
        | CtLock2 \<Rightarrow>
            if count_lock s = None then Next (tq_goto t CtCount (s\<lparr>count_lock := Some t\<rparr>))
            else Blocked
        | CtCount \<Rightarrow> Next (tq_goto t CtUnlock2 (s\<lparr>consumed_count := consumed_count s + 1\<rparr>))
        | CtUnlock2 \<Rightarrow> Next (tq_goto t CtSleep (s\<lparr>count_lock := None\<rparr>))
        | CtSleep \<Rightarrow> Next (tq_goto t CtLock s)
        | CtExit \<Rightarrow> Blocked)"

text \<open>
  The state when \<open>main\<close> has created the threads, for \<open>./tsqueue np nc ipp\<close>:
  \<open>total_items = num_producers * items_per_producer\<close>, \<open>consumed_count = 0\<close>, the queue
  initialised by \<open>queue_init\<close>.
\<close>

definition tsqueue_init :: "nat \<Rightarrow> nat \<Rightarrow> int \<Rightarrow> ThreadSafeQueue \<Rightarrow> tsqueue_program" where
  "tsqueue_init np nc ipp q0 =
     \<lparr>tq_monitor = monitor_init q0 (replicate (np + nc) []),
      consumed_count = 0, count_lock = None, total_items = int np * ipp, tq_items = ipp,
      tq_threads =
        map (\<lambda>k. \<lparr>tq_at = PtLoop, tq_id = int k, tq_i = 0\<rparr>) [0..<np] @
        map (\<lambda>k. \<lparr>tq_at = CtLock, tq_id = int k, tq_i = 0\<rparr>) [0..<nc]\<rparr>"

fun tsqueue_exec :: "(nat \<times> addr option) list \<Rightarrow> tsqueue_program \<Rightarrow> tsqueue_program option" where
  "tsqueue_exec [] s = Some s"
| "tsqueue_exec ((t, m) # sched) s =
     (case tsqueue_step t m s of
        Next s' \<Rightarrow> tsqueue_exec sched s'
      | _ \<Rightarrow> None)"


text \<open>
  A run of \<open>./tsqueue 1 2 1\<close> (one producer, thread 0; two consumers, threads 1 and 2; one
  item). Both consumers read \<open>consumed_count = 0 < 1\<close>, call \<open>dequeue\<close> and go to sleep on the
  empty queue; the producer enqueues its item (\<open>malloc\<close> returns address 0) and returns;
  consumer 1 wakes, takes the item, counts it, reads \<open>consumed_count = 1\<close> and leaves its loop.
\<close>

definition hang_schedule :: "(nat \<times> addr option) list" where
  "hang_schedule =
     [(1, None), (1, None), (1, None), (1, None), (1, None), (1, None), (1, None),
      (2, None), (2, None), (2, None), (2, None), (2, None), (2, None), (2, None),
      (0, None), (0, None), (0, None), (0, Some 0), (0, None), (0, None), (0, None),
      (0, None), (0, None), (0, None), (0, None),
      (1, None), (1, None), (1, None), (1, None), (1, None), (1, None), (1, None),
      (1, None), (1, None), (1, None), (1, None), (1, None), (1, None)]"

text \<open>
  The states after that run: the producer and consumer 1 have returned, every item is
  consumed, the queue is empty, and consumer 2 is inside \<open>dequeue\<close> at \<open>p\<close>, the queue's lock
  being \<open>l\<close>.
\<close>

definition hang_state :: "mq_pc \<Rightarrow> nat option \<Rightarrow> tsqueue_program" where
  "hang_state p l =
     \<lparr>tq_monitor =
        \<lparr>queue = \<lparr>head = None, tail = None, nodes = Map.empty\<rparr>, lock = l,
         threads = [\<lparr>tpc = Idle, todo = [], got = []\<rparr>,
                    \<lparr>tpc = Idle, todo = [], got = [0]\<rparr>,
                    \<lparr>tpc = p, todo = [], got = []\<rparr>]\<rparr>,
      consumed_count = 1, count_lock = None, total_items = 1, tq_items = 1,
      tq_threads = [\<lparr>tq_at = PtExit, tq_id = 0, tq_i = 1\<rparr>,
                    \<lparr>tq_at = CtExit, tq_id = 0, tq_i = 0\<rparr>,
                    \<lparr>tq_at = CtInDequeue, tq_id = 1, tq_i = 0\<rparr>]\<rparr>"

definition hanging :: "tsqueue_program \<Rightarrow> bool" where
  "hanging s =
     (s = hang_state DWait None \<or> s = hang_state DWake None \<or> s = hang_state DTest (Some 2))"


section \<open>ResourceRing: verification\<close>

subsection \<open>List bookkeeping\<close>

lemma filter_update_length:
  "k < length xs \<Longrightarrow>
   length (filter P (xs[k := y])) + (if P (xs ! k) then 1 else 0) =
   length (filter P xs) + (if P y then 1 else 0)"
proof (induction xs arbitrary: k)
  case Nil
  then show ?case by simp
next
  case (Cons x xs)
  then show ?case by (cases k) auto
qed

lemma sum_list_map_update:
  "k < length xs \<Longrightarrow>
   sum_list (map g (xs[k := y])) + g (xs ! k) = sum_list (map g xs) + (g y :: nat)"
proof (induction xs arbitrary: k)
  case Nil
  then show ?case by simp
next
  case (Cons x xs)
  then show ?case by (cases k) auto
qed

subsection \<open>One statement of one philosopher\<close>

lemma step_thread:
  assumes "philosopher pid s = Some (e, s')"
  shows "pid < length (phils s) \<and> cycles_per_philosopher s' = cycles_per_philosopher s \<and>
         num_philosophers s' = num_philosophers s \<and>
         phils s' = (phils s)[pid := phils s' ! pid] \<and>
         Suc (remaining_of (cycles_per_philosopher s) (phils s' ! pid)) =
           remaining_of (cycles_per_philosopher s) (phils s ! pid)"
proof -
  from assms have k: "pid < length (phils s)"
    by (auto simp: philosopher_def split: if_splits)
  obtain p i where t: "phils s ! pid = (p, i)" by (cases "phils s ! pid")
  show ?thesis
    using assms k t
    by (cases p)
       (auto simp: philosopher_def remaining_of_def goto_def mutex_lock_def mutex_unlock_def
             split: if_splits option.splits)
qed

lemma step_remaining:
  assumes "philosopher pid s = Some (e, s')"
  shows "Suc (remaining s') = remaining s"
proof -
  let ?g = "remaining_of (cycles_per_philosopher s)"
  from step_thread[OF assms] have k: "pid < length (phils s)"
    and c: "cycles_per_philosopher s' = cycles_per_philosopher s"
    and u: "phils s' = (phils s)[pid := phils s' ! pid]"
    and d: "Suc (?g (phils s' ! pid)) = ?g (phils s ! pid)"
    by simp_all
  have "sum_list (map ?g ((phils s)[pid := phils s' ! pid])) + ?g (phils s ! pid) =
        sum_list (map ?g (phils s)) + ?g (phils s' ! pid)"
    by (rule sum_list_map_update[OF k])
  with u d have "sum_list (map ?g (phils s')) + Suc (?g (phils s' ! pid)) =
        sum_list (map ?g (phils s)) + ?g (phils s' ! pid)"
    by simp
  then show ?thesis by (simp add: remaining_def c)
qed

lemma right_less: "pid < num_philosophers s \<Longrightarrow> right s pid < num_philosophers s"
  by (simp add: right_def)

lemma left_neq_right:
  "2 \<le> num_philosophers s \<Longrightarrow> pid < num_philosophers s \<Longrightarrow> left pid \<noteq> right s pid"
  by (auto simp: left_def right_def mod_Suc split: if_splits)

lemma first_second_forks:
  "{first_fork s pid, second_fork s pid} = {left pid, right s pid}"
  by (auto simp: first_fork_def second_fork_def)

lemma first_fork_less: "pid < num_philosophers s \<Longrightarrow> first_fork s pid < num_philosophers s"
  by (simp add: first_fork_def right_less left_def)

lemma second_fork_less: "pid < num_philosophers s \<Longrightarrow> second_fork s pid < num_philosophers s"
  by (simp add: second_fork_def right_less left_def)

lemma admitted_counted:
  "k < length xs \<Longrightarrow> P (xs ! k) \<Longrightarrow> 1 \<le> length (filter P xs)"
  by (metis One_nat_def Suc_leI filter_empty_conv length_greater_0_conv nth_mem)

lemma held_other:
  "phils s' = (phils s)[pid := t] \<Longrightarrow> num_philosophers s' = num_philosophers s \<Longrightarrow>
   q \<noteq> pid \<Longrightarrow> held s' q = held s q"
  by (simp add: held_def first_fork_def right_def split: phil_pc.splits)

lemma admitted_two:
  assumes "ring_inv s" "pid < num_philosophers s" "admitted (fst (phils s ! pid))"
  shows "2 \<le> num_philosophers s"
proof -
  from assms have "1 \<le> tickets_out s"
    unfolding tickets_out_def ring_inv_def
    by (intro admitted_counted[where k = pid]) auto
  with assms(1) show ?thesis by (simp add: ring_inv_def)
qed

lemma ring_inv_step:
  assumes inv: "ring_inv s" and st: "philosopher pid s = Some (e, s')"
  shows "ring_inv s'"
proof -
  let ?N = "num_philosophers s"
  from st have k: "pid < length (phils s)"
    by (auto simp: philosopher_def split: if_splits)
  with inv have kN: "pid < ?N" by (simp add: ring_inv_def)
  obtain p i where t: "phils s ! pid = (p, i)" by (cases "phils s ! pid")
  from step_thread[OF st] have nN: "num_philosophers s' = ?N"
    and u: "phils s' = (phils s)[pid := phils s' ! pid]" by simp_all
  have lenp: "length (phils s') = ?N"
    using u inv by (metis length_list_update ring_inv_def)
  have lenf: "length (forks s') = ?N"
    using st k t inv
    by (cases p) (auto simp: philosopher_def goto_def mutex_lock_def mutex_unlock_def ring_inv_def
          split: if_splits option.splits)
  have tick: "waiter s' + tickets_out s' + 1 = ?N"
    using st k t inv filter_update_length[OF k, of "\<lambda>t. admitted (fst t)" "phils s' ! pid"] u
    by (cases p) (auto simp: philosopher_def goto_def mutex_lock_def mutex_unlock_def ring_inv_def
          tickets_out_def admitted_def split: if_splits option.splits)
  have F: "\<And>f q. f < ?N \<Longrightarrow> forks s ! f = Some q \<longleftrightarrow> (q < ?N \<and> f \<in> held s q)"
    using inv by (simp add: ring_inv_def)
  have lf: "length (forks s) = ?N" using inv by (simp add: ring_inv_def)
  have frk: "forks s' ! f = Some q \<longleftrightarrow> (q < ?N \<and> f \<in> held s' q)" if f: "f < ?N" for f q
  proof (cases "q = pid")
    case False
    have h: "held s' q = held s q"
      using held_other[OF u nN False] .
    have "forks s' ! f = Some q \<longleftrightarrow> forks s ! f = Some q"
      using st k t False f lf F[of "left pid" pid] F[of "right s pid" pid] kN right_less[OF kN]
        first_fork_less[OF kN] second_fork_less[OF kN]
      by (cases p) (auto simp: philosopher_def goto_def mutex_lock_def mutex_unlock_def
            nth_list_update held_def left_def split: if_splits option.splits)
    with h F[OF f] show ?thesis by simp
  next
    case True
    have two: "admitted p \<Longrightarrow> left pid \<noteq> right s pid"
      using admitted_two[OF inv kN] t left_neq_right[OF _ kN] by simp
    have fs: "admitted p \<Longrightarrow> first_fork s pid \<noteq> second_fork s pid"
      using two by (auto simp: first_fork_def second_fork_def)
    have r': "right s' pid = right s pid" and f': "first_fork s' pid = first_fork s pid"
      using nN by (simp_all add: right_def first_fork_def)
    note bounds = right_less[OF kN] first_fork_less[OF kN] second_fork_less[OF kN]
    note defs = philosopher_def goto_def mutex_lock_def mutex_unlock_def held_def
    from F[OF f, of pid] kN have Fp: "forks s ! f = Some pid \<longleftrightarrow> f \<in> held s pid" by simp
    have "forks s' ! f = Some pid \<longleftrightarrow> f \<in> held s' pid"
    proof (cases p)
      case PLockFirst
      with st k t have s': "s' = s\<lparr>forks := (forks s)[first_fork s pid := Some pid],
           phils := (phils s)[pid := (PLockSecond, i)]\<rparr>"
        by (auto simp: defs split: if_splits option.splits)
      show ?thesis using Fp k t lf bounds PLockFirst
        by (auto simp: s' held_def nth_list_update first_fork_def right_def)
    next
      case PLockSecond
      with st k t have s': "s' = s\<lparr>forks := (forks s)[second_fork s pid := Some pid],
           phils := (phils s)[pid := (PEat, i)]\<rparr>"
        by (auto simp: defs split: if_splits option.splits)
      have "held s' pid = {first_fork s pid, second_fork s pid}"
        using k first_second_forks[of s pid] by (simp add: s' held_def right_def)
      moreover have "held s pid = {first_fork s pid}"
        using t PLockSecond by (simp add: held_def)
      ultimately show ?thesis using Fp lf bounds
        by (auto simp: s' nth_list_update)
    next
      case PUnlockLeft
      with st k t have s': "s' = s\<lparr>forks := (forks s)[left pid := None],
           phils := (phils s)[pid := (PUnlockRight, i)]\<rparr>"
        by (auto simp: defs split: if_splits option.splits)
      have "held s' pid = {right s pid}"
        using k by (simp add: s' held_def right_def)
      moreover have "held s pid = {left pid, right s pid}"
        using t PUnlockLeft by (simp add: held_def)
      ultimately show ?thesis using Fp lf kN two PUnlockLeft
        by (auto simp: s' nth_list_update left_def admitted_def)
    next
      case PUnlockRight
      with st k t have s': "s' = s\<lparr>forks := (forks s)[right s pid := None],
           phils := (phils s)[pid := (PSemPost, i)]\<rparr>"
        by (auto simp: defs split: if_splits option.splits)
      have "held s' pid = {}"
        using k by (simp add: s' held_def)
      moreover have "held s pid = {right s pid}"
        using t PUnlockRight by (simp add: held_def)
      ultimately show ?thesis using Fp lf bounds
        by (auto simp: s' nth_list_update)
    next
      case PLoop
      with st k t Fp show ?thesis
        by (auto simp: defs split: if_splits)
    next
      case PThink
      with st k t Fp show ?thesis
        by (auto simp: defs split: if_splits)
    next
      case PSemWait
      with st k t Fp show ?thesis
        by (auto simp: defs split: if_splits)
    next
      case PEat
      with st k t Fp show ?thesis
        by (auto simp: defs right_def split: if_splits)
    next
      case PSemPost
      with st k t Fp show ?thesis
        by (auto simp: defs split: if_splits)
    next
      case PFinish
      with st k t Fp show ?thesis
        by (auto simp: defs split: if_splits)
    next
      case PDone
      with st k t show ?thesis
        by (auto simp: defs split: if_splits)
    qed
    with True kN show ?thesis by simp
  qed
  show ?thesis using lenp lenf tick frk nN by (simp add: ring_inv_def)
qed

subsection \<open>A state without an enabled thread is the final state\<close>

text \<open>
  A blocked thread that holds a fork waits for its second fork, whose index is larger than
  that of the fork it holds. So from any waiting thread there would be a waiting thread on a
  fork of strictly larger index, which is impossible among finitely many forks.
\<close>

lemma first_less_second:
  "2 \<le> num_philosophers s \<Longrightarrow> pid < num_philosophers s \<Longrightarrow>
   first_fork s pid < second_fork s pid"
  using left_neq_right[of s pid] by (auto simp: first_fork_def second_fork_def)

lemma blocked_pc:
  assumes "philosopher pid s = None" "pid < length (phils s)"
  shows "fst (phils s ! pid) = PDone \<or>
         fst (phils s ! pid) = PSemWait \<and> waiter s = 0 \<or>
         fst (phils s ! pid) = PLockFirst \<and> forks s ! first_fork s pid \<noteq> None \<or>
         fst (phils s ! pid) = PLockSecond \<and> forks s ! second_fork s pid \<noteq> None"
proof -
  obtain p i where t: "phils s ! pid = (p, i)" by (cases "phils s ! pid")
  show ?thesis using assms t
    by (cases p) (auto simp: philosopher_def mutex_lock_def split: if_splits option.splits)
qed

lemma wait_chain:
  assumes inv: "ring_inv s" and N2: "2 \<le> num_philosophers s"
    and stuck: "\<forall>pid < num_philosophers s. philosopher pid s = None"
    and pid: "pid < num_philosophers s" and w: "waits_for s pid f"
  shows "\<exists>q g. q < num_philosophers s \<and> waits_for s q g \<and> f < g \<and> g < num_philosophers s"
proof -
  let ?N = "num_philosophers s"
  have len: "length (phils s) = ?N" using inv by (simp add: ring_inv_def)
  have fN: "f < ?N"
    using w pid first_fork_less second_fork_less by (auto simp: waits_for_def)
  from blocked_pc[of pid s] stuck pid len w
  have "forks s ! f \<noteq> None" by (auto simp: waits_for_def)
  then obtain q where q: "forks s ! f = Some q" by auto
  with inv fN have qN: "q < ?N" and h: "f \<in> held s q" by (auto simp: ring_inv_def)
  from blocked_pc[of q s] stuck qN len h
  have pcq: "fst (phils s ! q) = PLockSecond" by (auto simp: held_def)
  with h have "f = first_fork s q" by (simp add: held_def)
  with first_less_second[OF N2 qN] pcq second_fork_less[OF qN] qN
  show ?thesis by (auto simp: waits_for_def)
qed

lemma nobody_waits:
  assumes inv: "ring_inv s" and N2: "2 \<le> num_philosophers s"
    and stuck: "\<forall>pid < num_philosophers s. philosopher pid s = None"
  shows "pid < num_philosophers s \<Longrightarrow> \<not> waits_for s pid f"
proof (induction "num_philosophers s - f" arbitrary: pid f rule: less_induct)
  case less
  show ?case
  proof
    assume "waits_for s pid f"
    from wait_chain[OF inv N2 stuck less.prems this]
    obtain q g where q: "q < num_philosophers s" and w: "waits_for s q g"
      and fg: "f < g" and g: "g < num_philosophers s" by blast
    from fg g have "num_philosophers s - g < num_philosophers s - f" by arith
    from less.hyps[OF this q] w show False by simp
  qed
qed

lemma ring_progress:
  assumes inv: "ring_inv s" and N2: "2 \<le> num_philosophers s"
    and stuck: "\<forall>pid < num_philosophers s. philosopher pid s = None"
    and pid: "pid < num_philosophers s"
  shows "fst (phils s ! pid) = PDone"
proof -
  let ?N = "num_philosophers s"
  have len: "length (phils s) = ?N" using inv by (simp add: ring_inv_def)
  have pcs: "fst (phils s ! q) = PDone \<or> fst (phils s ! q) = PSemWait \<and> waiter s = 0"
    if "q < ?N" for q
    using blocked_pc[of q s] stuck that len nobody_waits[OF inv N2 stuck that]
    by (auto simp: waits_for_def)
  have "\<not> admitted (fst t)" if "t \<in> set (phils s)" for t
  proof -
    from that obtain q where "q < length (phils s)" "t = phils s ! q"
      by (auto simp: in_set_conv_nth)
    with pcs[of q] len show ?thesis by (auto simp: admitted_def)
  qed
  then have "tickets_out s = 0" by (simp add: tickets_out_def)
  with inv N2 have "0 < waiter s" by (simp add: ring_inv_def)
  with pcs[OF pid] show ?thesis by simp
qed

subsection \<open>Executions from the initial state\<close>

lemma ring_init_inv: "1 \<le> n \<Longrightarrow> ring_inv (ring_init n c)"
  by (auto simp: ring_inv_def ring_init_def tickets_out_def admitted_def held_def)

lemma remaining_init: "remaining (ring_init n c) = n * (9 * nat c + 2)"
  by (simp add: remaining_def ring_init_def remaining_of_def sum_list_replicate)

lemma ring_exec_inv:
  "ring_inv s \<Longrightarrow> ring_exec sched s = Some (es, s') \<Longrightarrow>
   ring_inv s' \<and> num_philosophers s' = num_philosophers s \<and>
   length sched + remaining s' = remaining s"
proof (induction sched arbitrary: s es)
  case Nil
  then show ?case by simp
next
  case (Cons pid sched)
  from Cons.prems(2) obtain e s1 es1 where
    st: "philosopher pid s = Some (e, s1)" and ex: "ring_exec sched s1 = Some (es1, s')"
    by (auto split: option.splits prod.splits)
  from ring_inv_step[OF Cons.prems(1) st] have i1: "ring_inv s1" .
  from Cons.IH[OF i1 ex] step_remaining[OF st] step_thread[OF st]
  show ?case by simp
qed

lemma remaining_done:
  assumes "\<forall>pid < length (phils s). fst (phils s ! pid) = PDone"
  shows "remaining s = 0"
proof -
  have "remaining_of (cycles_per_philosopher s) t = 0" if "t \<in> set (phils s)" for t
  proof -
    from that obtain q where "q < length (phils s)" "t = phils s ! q"
      by (auto simp: in_set_conv_nth)
    with assms have "fst t = PDone" by simp
    then show ?thesis by (cases t) (simp add: remaining_of_def)
  qed
  then show ?thesis by (simp add: remaining_def)
qed

text \<open>
  C9 (deadlock freedom of the ResourceRing). For every number of agents \<open>n \<ge> 2\<close> (so for
  every \<open>n\<close> in 2..50) and every cycle count, along every execution from the initial state,
  whatever the scheduler: the execution has at most \<open>n * (9 * cycles + 2)\<close> steps, and a state
  in which no agent can take a step is reached only when every agent has completed all its
  cycles, after exactly that many steps. Hence no execution hangs: as long as some agent has
  not finished, some agent is enabled, and every step consumes one unit of a finite budget.
\<close>

theorem ring_deadlock_free:
  assumes "2 \<le> n" and "ring_exec sched (ring_init n c) = Some (es, s)"
  shows "length sched \<le> n * (9 * nat c + 2) \<and>
         ((\<forall>pid < n. philosopher pid s = None) \<longrightarrow>
            (\<forall>pid < n. fst (phils s ! pid) = PDone) \<and> length sched = n * (9 * nat c + 2))"
proof -
  from assms(1) have "ring_inv (ring_init n c)" by (simp add: ring_init_inv)
  from ring_exec_inv[OF this assms(2)]
  have inv: "ring_inv s" and N: "num_philosophers s = n"
    and m: "length sched + remaining s = n * (9 * nat c + 2)"
    by (simp_all add: remaining_init) (simp add: ring_init_def)
  have "(\<forall>pid < n. fst (phils s ! pid) = PDone) \<and> length sched = n * (9 * nat c + 2)"
    if stuck: "\<forall>pid < n. philosopher pid s = None"
  proof -
    have d: "\<forall>pid < n. fst (phils s ! pid) = PDone"
      using ring_progress[OF inv] assms(1) stuck N by simp
    moreover have "length (phils s) = n" using inv N by (simp add: ring_inv_def)
    ultimately have "remaining s = 0" by (intro remaining_done) simp
    with m d show ?thesis by simp
  qed
  with m show ?thesis by simp
qed

text \<open>Two agents, one cycle each, run one after the other to completion.\<close>

theorem ring_deadlock_free_witness:
  "(2::nat) \<le> 2 \<and>
   ring_exec [0,0,0,0,0,0,0,0,0,0,0,1,1,1,1,1,1,1,1,1,1,1] (ring_init 2 1) =
     Some ([LoopTest True, Think, SemWait, Lock 0, Lock 1, Eat, Unlock 0, Unlock 1,
            SemPost, LoopTest False, Finish, LoopTest True, Think, SemWait, Lock 0,
            Lock 1, Eat, Unlock 1, Unlock 0, SemPost, LoopTest False, Finish],
           \<lparr>num_philosophers = 2, cycles_per_philosopher = 1, forks = [None, None],
            waiter = 1, phils = [(PDone, 1), (PDone, 1)]\<rparr>) \<and>
   philosopher 0
      \<lparr>num_philosophers = 2, cycles_per_philosopher = 1, forks = [None, None],
       waiter = 1, phils = [(PDone, 1), (PDone, 1)]\<rparr> = None \<and>
   philosopher 1
      \<lparr>num_philosophers = 2, cycles_per_philosopher = 1, forks = [None, None],
       waiter = 1, phils = [(PDone, 1), (PDone, 1)]\<rparr> = None \<and>
   length [0,0,0,0,0,0,0,0,0,0,0,1,1,1,1,1,1,1,1,1,1,1::nat] = 2 * (9 * nat 1 + 2)"
proof -
  let ?S = "\<lparr>num_philosophers = 2, cycles_per_philosopher = 1, forks = [None, None],
            waiter = 1, phils = [(PDone, 1), (PDone, 1)]\<rparr>"
  have n: "(2::nat) \<le> 2" by simp
  have run: "ring_exec [0,0,0,0,0,0,0,0,0,0,0,1,1,1,1,1,1,1,1,1,1,1] (ring_init 2 1) =
     Some ([LoopTest True, Think, SemWait, Lock 0, Lock 1, Eat, Unlock 0, Unlock 1,
            SemPost, LoopTest False, Finish, LoopTest True, Think, SemWait, Lock 0,
            Lock 1, Eat, Unlock 1, Unlock 0, SemPost, LoopTest False, Finish], ?S)"
    by code_simp
  have s0: "philosopher 0 ?S = None" and s1: "philosopher 1 ?S = None"
    by (simp_all add: philosopher_def)
  then have stuck: "\<forall>pid < 2. philosopher pid ?S = None"
    by (simp add: less_Suc_eq numeral_2_eq_2)
  from ring_deadlock_free[OF n run] stuck
  have "length [0,0,0,0,0,0,0,0,0,0,0,1,1,1,1,1,1,1,1,1,1,1::nat] = 2 * (9 * nat 1 + 2)"
    by blast
  with n run s0 s1 show ?thesis by blast
qed

text \<open>
  C4 (admission gate). The waiter is created with count \<open>n - 1\<close>. In every reachable state
  the waiter's value plus the number of agents between their \<open>sem_wait\<close> and their
  \<open>sem_post\<close> is \<open>n - 1\<close>, so at most \<open>n - 1\<close> agents are in the acquisition phase; and the owner
  of any fork is an agent that has passed \<open>sem_wait\<close> and has not yet reached \<open>sem_post\<close>:
  the ticket is taken before the first lock and given back after the second unlock.
\<close>

theorem admission_gate:
  assumes "1 \<le> n" and "ring_exec sched (ring_init n c) = Some (es, s)"
  shows "waiter (ring_init n c) = n - 1 \<and>
         waiter s + tickets_out s = n - 1 \<and>
         (\<forall>f < n. \<forall>pid. forks s ! f = Some pid \<longrightarrow>
            pid < n \<and> fst (phils s ! pid) \<in> {PLockSecond, PEat, PUnlockLeft, PUnlockRight})"
proof -
  from assms(1) have "ring_inv (ring_init n c)" by (simp add: ring_init_inv)
  from ring_exec_inv[OF this assms(2)]
  have inv: "ring_inv s" and N: "num_philosophers s = n"
    by (simp_all add: ring_init_def)
  have "pid < n \<and> fst (phils s ! pid) \<in> {PLockSecond, PEat, PUnlockLeft, PUnlockRight}"
    if "f < n" "forks s ! f = Some pid" for f pid
  proof -
    from inv N that have "pid < n" and "f \<in> held s pid" by (auto simp: ring_inv_def)
    then show ?thesis by (auto simp: held_def split: phil_pc.splits)
  qed
  moreover from inv N have "waiter s + tickets_out s = n - 1" by (auto simp: ring_inv_def)
  ultimately show ?thesis by (simp add: ring_init_def)
qed

text \<open>
  Three agents: agent 2 has taken a ticket and fork 0, agent 0 has taken the other ticket;
  agent 1 would block at \<open>sem_wait\<close>.
\<close>

theorem admission_gate_witness:
  "(1::nat) \<le> 3 \<and>
   ring_exec [2,2,2,2,0,0,0] (ring_init 3 1) =
     Some ([LoopTest True, Think, SemWait, Lock 0, LoopTest True, Think, SemWait],
           \<lparr>num_philosophers = 3, cycles_per_philosopher = 1,
            forks = [Some 2, None, None], waiter = 0,
            phils = [(PLockFirst, 0), (PLoop, 0), (PLockSecond, 0)]\<rparr>) \<and>
   waiter (ring_init 3 1) = 2 \<and>
   tickets_out \<lparr>num_philosophers = 3, cycles_per_philosopher = 1,
            forks = [Some 2, None, None], waiter = 0,
            phils = [(PLockFirst, 0), (PLoop, 0), (PLockSecond, 0)]\<rparr> = 2 \<and>
   philosopher 1 (goto 1 PSemWait \<lparr>num_philosophers = 3, cycles_per_philosopher = 1,
            forks = [Some 2, None, None], waiter = 0,
            phils = [(PLockFirst, 0), (PLoop, 0), (PLockSecond, 0)]\<rparr>) = None"
proof -
  let ?S = "\<lparr>num_philosophers = 3, cycles_per_philosopher = 1,
            forks = [Some 2, None, None], waiter = 0,
            phils = [(PLockFirst, 0), (PLoop, 0), (PLockSecond, 0)]\<rparr>"
  have n: "(1::nat) \<le> 3" by simp
  have run: "ring_exec [2,2,2,2,0,0,0] (ring_init 3 1) =
     Some ([LoopTest True, Think, SemWait, Lock 0, LoopTest True, Think, SemWait], ?S)"
    by code_simp
  have blocked: "philosopher 1 (goto 1 PSemWait ?S) = None"
    by (simp add: philosopher_def goto_def)
  from admission_gate[OF n run] have "waiter (ring_init 3 1) = 2" and "tickets_out ?S = 2"
    by simp_all
  with n run blocked show ?thesis by simp
qed



section \<open>MonitorQueue: verification of the linked list\<close>

subsection \<open>Chains under allocation, update and release\<close>

lemma chain_alloc:
  "chain m p cells \<Longrightarrow> a \<notin> fst ` set cells \<Longrightarrow> chain (m(a \<mapsto> nd)) p cells"
  by (induction cells arbitrary: p) (auto split: option.splits)

lemma chain_free:
  "chain m p cells \<Longrightarrow> a \<notin> fst ` set cells \<Longrightarrow> chain (m(a := None)) p cells"
  by (induction cells arbitrary: p) (auto split: option.splits)

lemma chain_allocated:
  "chain m p cells \<Longrightarrow> a \<in> fst ` set cells \<Longrightarrow> m a \<noteq> None"
  by (induction cells arbitrary: p) (force split: option.splits)+

lemma chain_snoc:
  assumes "chain m p (cells @ [(t, v)])" "distinct (map fst (cells @ [(t, v)]))"
    "m t = Some tn" "m n = Some \<lparr>val = x, nxt = None\<rparr>" "n \<notin> fst ` set (cells @ [(t, v)])"
  shows "chain (m(t \<mapsto> tn\<lparr>nxt := Some n\<rparr>)) p (cells @ [(t, v), (n, x)])"
  using assms
  by (induction cells arbitrary: p) (auto split: option.splits)


subsection \<open>The operations on the represented list\<close>

lemma queue_init_represents: "represents (queue_init q) []"
  by (simp add: represents_def queue_init_def)

lemma represents_empty: "represents q [] \<longleftrightarrow> head q = None \<and> tail q = None"
  by (auto simp: represents_def)

lemma enqueue_represents:
  assumes r: "represents q cells" and fresh: "nodes q a = None"
  shows "\<exists>q'. enqueue (Some a) x q = Inr q' \<and> represents q' (cells @ [(a, x)]) \<and>
              (\<forall>b. b \<noteq> a \<longrightarrow> nodes q' b = None \<longleftrightarrow> nodes q b = None) \<and>
              nodes q' a = Some \<lparr>val = x, nxt = None\<rparr>"
proof (cases cells rule: rev_cases)
  case Nil
  with r fresh show ?thesis
    by (auto simp: represents_def enqueue_def alloc_node_def link_node_def)
next
  case (snoc cells' tv)
  obtain t v where tv: "tv = (t, v)" by (cases tv)
  let ?m = "(nodes q)(a \<mapsto> \<lparr>val = x, nxt = None\<rparr>)"
  from r snoc tv have ch: "chain (nodes q) (head q) (cells' @ [(t, v)])"
    and d: "distinct (map fst (cells' @ [(t, v)]))" and tl: "tail q = Some t"
    by (simp_all add: represents_def)
  from chain_allocated[OF ch, of a] fresh have an: "a \<notin> fst ` set (cells' @ [(t, v)])"
    by auto
  from chain_allocated[OF ch, of t] obtain tn where tn: "nodes q t = Some tn" by auto
  from an have at: "a \<noteq> t" by auto
  have ch1: "chain ?m (head q) (cells' @ [(t, v)])"
    using chain_alloc[OF ch an] .
  have "chain (?m(t \<mapsto> tn\<lparr>nxt := Some a\<rparr>)) (head q) (cells' @ [(t, v), (a, x)])"
    by (rule chain_snoc[OF ch1 d]) (use tn at an in auto)
  with d an tl tn at snoc tv show ?thesis
    by (auto simp: represents_def enqueue_def alloc_node_def link_node_def)
qed

lemma dequeue_represents:
  assumes r: "represents q ((a, v) # cells)"
  shows "\<exists>q'. dequeue q = Returns v q' \<and> represents q' cells \<and>
              (\<forall>b. b \<noteq> a \<longrightarrow> nodes q' b = nodes q b) \<and> nodes q' a = None"
proof -
  from r obtain nd where h: "head q = Some a" and nd: "nodes q a = Some nd" "val nd = v"
    and ch: "chain (nodes q) (nxt nd) cells" and d: "a \<notin> fst ` set cells" "distinct (map fst cells)"
    by (auto simp: represents_def split: option.splits)
  from chain_free[OF ch d(1)] have ch': "chain ((nodes q)(a := None)) (nxt nd) cells" .
  have e: "nxt nd = None \<longleftrightarrow> cells = []"
    using ch by (cases cells) auto
  from r have "cells \<noteq> [] \<Longrightarrow> tail q = Some (fst (last cells))"
    by (simp add: represents_def)
  with h nd ch' d e show ?thesis
    by (auto simp: dequeue_def represents_def Let_def)
qed

lemma dequeue_waits: "represents q [] \<Longrightarrow> dequeue q = Waits"
  by (simp add: represents_def dequeue_def)


subsection \<open>Sequences of calls\<close>

lemma run_queue_represents:
  "represents q cells \<Longrightarrow> run_queue ops q = Some (outs, q') \<Longrightarrow>
   \<exists>cells'. represents q' cells' \<and> map snd cells @ enqueued ops = outs @ map snd cells'"
proof (induction ops q arbitrary: cells outs rule: run_queue.induct)
  case (1 q)
  then show ?case by auto
next
  case (2 a x ops q)
  from "2.prems"(2) have fresh: "nodes q a = None" by (auto split: if_splits)
  from enqueue_represents[OF "2.prems"(1) fresh, of x] obtain q1 where
    e: "enqueue (Some a) x q = Inr q1" and r1: "represents q1 (cells @ [(a, x)])" by blast
  from "2.prems"(2) fresh e have "run_queue ops q1 = Some (outs, q')" by simp
  from "2.IH"[OF _ e r1 this] fresh show ?case by auto
next
  case (3 ops q)
  from "3.prems"(2) obtain v q1 vs where d: "dequeue q = Returns v q1"
    and rn: "run_queue ops q1 = Some (vs, q')" and outs: "outs = v # vs"
    by (auto split: dequeue_result.splits option.splits)
  show ?case
  proof (cases cells)
    case Nil
    with "3.prems"(1) d show ?thesis by (simp add: dequeue_waits)
  next
    case (Cons c cells1)
    obtain a w where c: "c = (a, w)" by (cases c)
    from dequeue_represents[of q a w cells1] "3.prems"(1) Cons c d
    have "w = v" and r1: "represents q1 cells1" by auto
    from "3.IH"[OF d r1 rn] Cons c outs \<open>w = v\<close> show ?thesis by auto
  qed
qed

lemma run_enqueues:
  assumes "represents q cells" "distinct (map fst axs)" "\<forall>a \<in> set (map fst axs). nodes q a = None"
  shows "\<exists>q'. run_queue (map (\<lambda>(a, x). Enq a x) axs @ ops) q = run_queue ops q' \<and>
              represents q' (cells @ axs)"
  using assms
proof (induction axs arbitrary: q cells)
  case Nil
  then show ?case by auto
next
  case (Cons ax axs)
  obtain a x where ax: "ax = (a, x)" by (cases ax)
  from Cons.prems ax have fresh: "nodes q a = None" by simp
  from enqueue_represents[OF Cons.prems(1) fresh, of x] obtain q1 where
    e: "enqueue (Some a) x q = Inr q1" and r1: "represents q1 (cells @ [(a, x)])"
    and fr: "\<forall>b. b \<noteq> a \<longrightarrow> nodes q1 b = None \<longleftrightarrow> nodes q b = None" by blast
  have "\<forall>b \<in> set (map fst axs). nodes q1 b = None"
    using Cons.prems(2,3) ax fr by fastforce
  from Cons.IH[OF r1 _ this] Cons.prems(2) obtain q' where
    "run_queue (map (\<lambda>(a, x). Enq a x) axs @ ops) q1 = run_queue ops q'"
    "represents q' ((cells @ [(a, x)]) @ axs)" by auto
  with fresh e ax show ?case by auto
qed

lemma run_dequeues:
  "represents q cells \<Longrightarrow>
   \<exists>q'. run_queue (replicate (length cells) Deq) q = Some (map snd cells, q') \<and> represents q' []"
proof (induction cells arbitrary: q)
  case Nil
  then show ?case by auto
next
  case (Cons c cells)
  obtain a v where c: "c = (a, v)" by (cases c)
  from dequeue_represents[of q a v cells] Cons.prems c obtain q1 where
    d: "dequeue q = Returns v q1" and r1: "represents q1 cells" by auto
  from Cons.IH[OF r1] d c show ?case by auto
qed

text \<open>
  C2 (FIFO order, single consumer). Enqueue the values of any list, each into a node at an
  address that was not allocated, then dequeue as many times as values were enqueued: every
  dequeue returns, the values returned are the values enqueued, in the same order, and the
  queue is empty again.
\<close>

theorem fifo_order:
  assumes "distinct (map fst axs)" and "\<forall>a \<in> set (map fst axs). nodes s a = None"
  shows "\<exists>q. run_queue (map (\<lambda>(a, x). Enq a x) axs @ replicate (length axs) Deq) (queue_init s) =
               Some (map snd axs, q) \<and> head q = None \<and> tail q = None"
proof -
  have "\<forall>a \<in> set (map fst axs). nodes (queue_init s) a = None"
    using assms(2) by (simp add: queue_init_def)
  from run_enqueues[OF queue_init_represents assms(1) this, where ops = "replicate (length axs) Deq"]
  obtain q1 where 1: "run_queue (map (\<lambda>(a, x). Enq a x) axs @ replicate (length axs) Deq) (queue_init s) =
      run_queue (replicate (length axs) Deq) q1" and r1: "represents q1 axs" by auto
  from run_dequeues[OF r1] 1 show ?thesis by (auto simp: represents_empty)
qed

text \<open>
  The same for any interleaving of the calls: what has been dequeued so far is a prefix of
  what has been enqueued, and the queue is empty exactly when nothing is outstanding.
\<close>

theorem fifo_order_interleaved:
  assumes "run_queue ops (queue_init s) = Some (outs, q)"
  shows "\<exists>rest. enqueued ops = outs @ rest \<and> (rest = [] \<longleftrightarrow> head q = None)"
proof -
  from run_queue_represents[OF queue_init_represents assms] obtain cells where
    r: "represents q cells" and e: "enqueued ops = outs @ map snd cells" by auto
  from r have "cells = [] \<longleftrightarrow> head q = None"
    by (cases cells) (auto simp: represents_def)
  with e show ?thesis by auto
qed

text \<open>
  C10 (representation invariant of the C queue). After \<open>queue_init\<close> and after any sequence
  of enqueue and dequeue calls, \<open>head\<close> is \<open>NULL\<close> if and only if \<open>tail\<close> is \<open>NULL\<close>, and when
  exactly one node is present (the head node's \<open>next\<close> is \<open>NULL\<close>) \<open>tail\<close> equals \<open>head\<close>.
\<close>

theorem head_tail_invariant:
  assumes "run_queue ops (queue_init s) = Some (outs, q)"
  shows "(head q = None \<longleftrightarrow> tail q = None) \<and>
         (\<forall>h nd. head q = Some h \<and> nodes q h = Some nd \<and> nxt nd = None \<longrightarrow> tail q = Some h)"
proof -
  from run_queue_represents[OF queue_init_represents assms] obtain cells where
    r: "represents q cells" by auto
  show ?thesis
  proof (cases cells)
    case Nil
    with r show ?thesis by (simp add: represents_def)
  next
    case (Cons c cells1)
    obtain a v where c: "c = (a, v)" by (cases c)
    from r Cons c have h: "head q = Some a" and t: "tail q = Some (fst (last ((a, v) # cells1)))"
      by (simp_all add: represents_def)
    have "cells1 = []" if "nodes q a = Some nd" "nxt nd = None" for nd
      using r Cons c that by (cases cells1) (auto simp: represents_def)
    with h t show ?thesis by auto
  qed
qed

subsection \<open>Concrete runs\<close>

text \<open>Enqueue 5 and 7, then dequeue twice.\<close>

theorem fifo_order_witness:
  "distinct (map fst [(0::addr, 5::int), (1, 7)]) \<and>
   nodes \<lparr>head = Some 3, tail = None, nodes = Map.empty\<rparr> 0 = None \<and>
   nodes \<lparr>head = Some 3, tail = None, nodes = Map.empty\<rparr> 1 = None \<and>
   map_option fst (run_queue [Enq 0 5, Enq 1 7, Deq, Deq]
      (queue_init \<lparr>head = Some 3, tail = None, nodes = Map.empty\<rparr>)) = Some [5, 7]"
proof -
  let ?s = "\<lparr>head = Some 3, tail = None, nodes = Map.empty\<rparr>"
  have d: "distinct (map fst [(0::addr, 5::int), (1, 7)])" by simp
  have f: "\<forall>a \<in> set (map fst [(0::addr, 5::int), (1, 7)]). nodes ?s a = None" by simp
  from fifo_order[OF d f] obtain q where
    "run_queue [Enq 0 5, Enq 1 7, Deq, Deq] (queue_init ?s) = Some ([5, 7], q)"
    by (auto simp: numeral_2_eq_2)
  then show ?thesis by simp
qed

text \<open>Enqueue 5 and 7, dequeue once: one node is left and both pointers are on it.\<close>

theorem head_tail_invariant_witness:
  "run_queue [Enq 0 5, Enq 1 7, Deq] (queue_init \<lparr>head = Some 3, tail = None, nodes = Map.empty\<rparr>) =
     Some ([5], \<lparr>head = Some 1, tail = Some 1, nodes = [1 \<mapsto> \<lparr>val = 7, nxt = None\<rparr>]\<rparr>) \<and>
   nodes \<lparr>head = Some 1, tail = Some 1, nodes = [1 \<mapsto> \<lparr>val = 7, nxt = None\<rparr>]\<rparr> 1 =
     Some \<lparr>val = 7, nxt = None\<rparr> \<and>
   tail \<lparr>head = Some 1, tail = Some 1, nodes = [1 \<mapsto> \<lparr>val = 7, nxt = None\<rparr>]\<rparr> = Some 1"
proof -
  let ?q = "\<lparr>head = Some 1, tail = Some 1, nodes = [1 \<mapsto> \<lparr>val = 7, nxt = None\<rparr>]\<rparr>"
  have run: "run_queue [Enq 0 5, Enq 1 7, Deq]
       (queue_init \<lparr>head = Some 3, tail = None, nodes = Map.empty\<rparr>) = Some ([5], ?q)"
    by (simp add: queue_init_def enqueue_def alloc_node_def link_node_def dequeue_def fun_eq_iff)
  have n: "nodes ?q 1 = Some \<lparr>val = 7, nxt = None\<rparr>" by simp
  from head_tail_invariant[OF run] n have "tail ?q = Some 1" by simp
  with run n show ?thesis by blast
qed

text \<open>The linked list of tsqueue.c implements the slice of tsqueue.go.\<close>

lemma Enqueue_Dequeue_refined:
  assumes "represents q cells"
  shows "nodes q a = None \<Longrightarrow>
           \<exists>q'. enqueue (Some a) x q = Inr q' \<and>
                represents q' (cells @ [(a, x)]) \<and> map snd (cells @ [(a, x)]) = Enqueue x (map snd cells)"
    and "Dequeue (map snd cells) = None \<Longrightarrow> dequeue q = Waits"
    and "Dequeue (map snd cells) = Some (v, rest) \<Longrightarrow>
           \<exists>q' cells'. dequeue q = Returns v q' \<and> represents q' cells' \<and> map snd cells' = rest"
proof -
  show "\<exists>q'. enqueue (Some a) x q = Inr q' \<and>
                represents q' (cells @ [(a, x)]) \<and> map snd (cells @ [(a, x)]) = Enqueue x (map snd cells)"
    if "nodes q a = None"
    using enqueue_represents[OF assms that, of x] by (auto simp: Enqueue_def)
  show "dequeue q = Waits" if "Dequeue (map snd cells) = None"
    using that assms by (cases cells) (auto simp: Dequeue_def dequeue_waits)
  show "\<exists>q' cells'. dequeue q = Returns v q' \<and> represents q' cells' \<and> map snd cells' = rest"
    if "Dequeue (map snd cells) = Some (v, rest)"
  proof (cases cells)
    case Nil
    with that show ?thesis by (simp add: Dequeue_def)
  next
    case (Cons c cells1)
    obtain b w where c: "c = (b, w)" by (cases c)
    from dequeue_represents[of q b w cells1] assms Cons c that show ?thesis
      by (auto simp: Dequeue_def)
  qed
qed

section \<open>MonitorQueue: verification of the monitor\<close>

subsection \<open>The invariant under one statement\<close>

lemma monitor_inv_pc:
  assumes inv: "monitor_inv s cells" and t: "t < length (threads s)"
    and p: "pending (tpc th') = pending (tpc (threads s ! t))"
    and k: "tpc th' = DTake \<longrightarrow> cells \<noteq> []"
    and a: "holds_lock (tpc th') \<and> \<not> holds_lock (tpc (threads s ! t)) \<longrightarrow> lock s = None"
    and l: "l' = (if holds_lock (tpc th') then Some t
                  else if holds_lock (tpc (threads s ! t)) then None else lock s)"
  shows "monitor_inv (set_thread t th' (s\<lparr>lock := l'\<rparr>)) cells"
proof -
  let ?s' = "set_thread t th' (s\<lparr>lock := l'\<rparr>)"
  have len: "length (threads ?s') = length (threads s)" by (simp add: set_thread_def)
  have nth: "threads ?s' ! u = (if u = t then th' else threads s ! u)" if "u < length (threads s)" for u
    using that t by (simp add: set_thread_def nth_list_update)
  have q: "queue ?s' = queue s" by (simp add: set_thread_def)
  have L: "\<And>u. lock s = Some u \<longleftrightarrow> u < length (threads s) \<and> holds_lock (tpc (threads s ! u))"
    using inv by (simp add: monitor_inv_def)
  have 1: "represents (queue ?s') cells" using inv q by (simp add: monitor_inv_def)
  have 2: "lock ?s' = Some u \<longleftrightarrow> u < length (threads ?s') \<and> holds_lock (tpc (threads ?s' ! u))" for u
  proof (cases "u < length (threads s)")
    case True
    have "lock ?s' = l'" by (simp add: set_thread_def)
    then show ?thesis using True nth[OF True] len L[of u] L[of t] t a l
      by (cases "u = t") auto
  next
    case False
    have "lock ?s' = l'" by (simp add: set_thread_def)
    then show ?thesis using False len L[of u] L[of t] t l by auto
  qed
  have 3: "\<forall>u < length (threads ?s'). tpc (threads ?s' ! u) = DTake \<longrightarrow> cells \<noteq> []"
    using inv k nth len by (auto simp: monitor_inv_def)
  have P: "\<And>u b. u < length (threads s) \<Longrightarrow> pending (tpc (threads s ! u)) = Some b \<Longrightarrow>
         b \<notin> fst ` set cells \<and> (\<exists>x. nodes (queue s) b = Some \<lparr>val = x, nxt = None\<rparr>) \<and>
         (\<forall>w < length (threads s). w \<noteq> u \<longrightarrow> pending (tpc (threads s ! w)) \<noteq> Some b)"
    using inv unfolding monitor_inv_def by blast
  have pn: "pending (tpc (threads ?s' ! u)) = pending (tpc (threads s ! u))" if "u < length (threads s)" for u
    using nth[OF that] p by auto
  have 4: "\<forall>u < length (threads ?s'). \<forall>b. pending (tpc (threads ?s' ! u)) = Some b \<longrightarrow>
         b \<notin> fst ` set cells \<and> (\<exists>x. nodes (queue ?s') b = Some \<lparr>val = x, nxt = None\<rparr>) \<and>
         (\<forall>w < length (threads ?s'). w \<noteq> u \<longrightarrow> pending (tpc (threads ?s' ! w)) \<noteq> Some b)"
    using P pn len q by auto
  show ?thesis
    unfolding monitor_inv_def using 1 2 3 4 by blast
qed


lemma monitor_inv_queue:
  assumes inv: "monitor_inv s cells" and t: "t < length (threads s)"
    and h: "holds_lock (tpc th') = holds_lock (tpc (threads s ! t))"
    and r: "represents q' cells'"
    and k: "tpc th' \<noteq> DTake"
    and k2: "\<not> holds_lock (tpc (threads s ! t)) \<longrightarrow> cells' = cells"
    and pend: "\<And>u b. u < length (threads s) \<Longrightarrow>
        pending (tpc (if u = t then th' else threads s ! u)) = Some b \<Longrightarrow>
          b \<notin> fst ` set cells' \<and> (\<exists>x. nodes q' b = Some \<lparr>val = x, nxt = None\<rparr>) \<and>
          (\<forall>w < length (threads s). w \<noteq> u \<longrightarrow>
             pending (tpc (if w = t then th' else threads s ! w)) \<noteq> Some b)"
  shows "monitor_inv (set_thread t th' (s\<lparr>queue := q'\<rparr>)) cells'"
proof -
  let ?s' = "set_thread t th' (s\<lparr>queue := q'\<rparr>)"
  have len: "length (threads ?s') = length (threads s)" by (simp add: set_thread_def)
  have nth: "threads ?s' ! u = (if u = t then th' else threads s ! u)" if "u < length (threads s)" for u
    using that t by (simp add: set_thread_def nth_list_update)
  have q: "queue ?s' = q'" and lk: "lock ?s' = lock s" by (simp_all add: set_thread_def)
  have L: "\<And>u. lock s = Some u \<longleftrightarrow> u < length (threads s) \<and> holds_lock (tpc (threads s ! u))"
    using inv by (simp add: monitor_inv_def)
  have 1: "represents (queue ?s') cells'" using r q by simp
  have 2: "lock ?s' = Some u \<longleftrightarrow> u < length (threads ?s') \<and> holds_lock (tpc (threads ?s' ! u))" for u
  proof (cases "u < length (threads s)")
    case True
    then show ?thesis using nth[OF True] len L[of u] lk h by (cases "u = t") auto
  next
    case False
    then show ?thesis using len L[of u] lk by auto
  qed
  have 3: "cells' \<noteq> []" if u: "u < length (threads ?s')" and d: "tpc (threads ?s' ! u) = DTake" for u
  proof -
    from u len have u': "u < length (threads s)" by simp
    with d nth[OF u'] k have ut: "u \<noteq> t" and du: "tpc (threads s ! u) = DTake" by (auto split: if_splits)
    from du u' L[of u] have "lock s = Some u" by simp
    with ut L[of t] t have "\<not> holds_lock (tpc (threads s ! t))" by auto
    with k2 have "cells' = cells" by simp
    with inv u' du show ?thesis by (auto simp: monitor_inv_def)
  qed
  have 4: "\<forall>u < length (threads ?s'). \<forall>b. pending (tpc (threads ?s' ! u)) = Some b \<longrightarrow>
         b \<notin> fst ` set cells' \<and> (\<exists>x. nodes (queue ?s') b = Some \<lparr>val = x, nxt = None\<rparr>) \<and>
         (\<forall>w < length (threads ?s'). w \<noteq> u \<longrightarrow> pending (tpc (threads ?s' ! w)) \<noteq> Some b)"
  proof (intro allI impI)
    fix u b assume u: "u < length (threads ?s')" and pb: "pending (tpc (threads ?s' ! u)) = Some b"
    from u len have u': "u < length (threads s)" by simp
    from pb nth[OF u'] have "pending (tpc (if u = t then th' else threads s ! u)) = Some b" by simp
    from pend[OF u' this] show "b \<notin> fst ` set cells' \<and>
         (\<exists>x. nodes (queue ?s') b = Some \<lparr>val = x, nxt = None\<rparr>) \<and>
         (\<forall>w < length (threads ?s'). w \<noteq> u \<longrightarrow> pending (tpc (threads ?s' ! w)) \<noteq> Some b)"
      using q len nth by auto
  qed
  show ?thesis
    unfolding monitor_inv_def using 1 2 3 4 by blast
qed

lemma link_represents:
  assumes r: "represents q cells" and an: "a \<notin> fst ` set cells"
    and na: "nodes q a = Some \<lparr>val = x, nxt = None\<rparr>"
  shows "\<exists>q'. link_node a q = Inr q' \<and> represents q' (cells @ [(a, x)]) \<and>
              (\<forall>b. b \<notin> fst ` set cells \<longrightarrow> nodes q' b = nodes q b)"
proof (cases cells rule: rev_cases)
  case Nil
  with r na show ?thesis
    by (auto simp: represents_def link_node_def)
next
  case (snoc cells' tv)
  obtain t v where tv: "tv = (t, v)" by (cases tv)
  from r snoc tv have ch: "chain (nodes q) (head q) (cells' @ [(t, v)])"
    and d: "distinct (map fst (cells' @ [(t, v)]))" and tl: "tail q = Some t"
    by (simp_all add: represents_def)
  from an snoc tv have an': "a \<notin> fst ` set (cells' @ [(t, v)])" by simp
  from chain_allocated[OF ch, of t] obtain tn where tn: "nodes q t = Some tn" by auto
  from an' have at: "a \<noteq> t" by auto
  have "chain ((nodes q)(t \<mapsto> tn\<lparr>nxt := Some a\<rparr>)) (head q) (cells' @ [(t, v), (a, x)])"
    by (rule chain_snoc[OF ch d tn na an'])
  with d an' tl tn at snoc tv show ?thesis
    by (auto simp: represents_def link_node_def)
qed


lemma monitor_inv_same_lock:
  assumes "monitor_inv s cells" "t < length (threads s)"
    "pending (tpc th') = pending (tpc (threads s ! t))"
    "tpc th' = DTake \<longrightarrow> cells \<noteq> []"
    "holds_lock (tpc th') = holds_lock (tpc (threads s ! t))"
  shows "monitor_inv (set_thread t th' s) cells"
proof -
  have "lock s = (if holds_lock (tpc th') then Some t
                  else if holds_lock (tpc (threads s ! t)) then None else lock s)"
    using assms(1,2,5) by (auto simp: monitor_inv_def)
  from monitor_inv_pc[OF assms(1-4) _ this] assms(5) show ?thesis by simp
qed

lemma monitor_inv_step:
  assumes inv: "monitor_inv s cells" and st: "monitor_step t m s = Next s'"
  shows "\<exists>cells'. monitor_inv s' cells'"
proof -
  from st have t: "t < length (threads s)"
    by (auto simp: monitor_step_def split: if_splits)
  let ?th = "threads s ! t"
  have r: "represents (queue s) cells" using inv by (simp add: monitor_inv_def)
  have P: "\<And>u b. u < length (threads s) \<Longrightarrow> pending (tpc (threads s ! u)) = Some b \<Longrightarrow>
         b \<notin> fst ` set cells \<and> (\<exists>x. nodes (queue s) b = Some \<lparr>val = x, nxt = None\<rparr>) \<and>
         (\<forall>w < length (threads s). w \<noteq> u \<longrightarrow> pending (tpc (threads s ! w)) \<noteq> Some b)"
    using inv unfolding monitor_inv_def by blast
  show ?thesis
  proof (cases "tpc ?th")
    case Idle
    with st t obtain p' cs where s': "s' = set_thread t (?th\<lparr>tpc := p', todo := cs\<rparr>) s"
      and p': "p' = DLock \<or> (\<exists>x. p' = EMalloc x)"
      by (auto simp: monitor_step_def Let_def split: list.splits mq_call.splits)
    have "monitor_inv (set_thread t (?th\<lparr>tpc := p', todo := cs\<rparr>) s) cells"
      by (rule monitor_inv_same_lock[OF inv t]) (use Idle p' in auto)
    with s' show ?thesis by blast
  next
    case (EMalloc x)
    with st t obtain a where m: "m = Some a" and fresh: "nodes (queue s) a = None"
      and s': "s' = set_thread t (?th\<lparr>tpc := ELock a\<rparr>)
                 (s\<lparr>queue := (queue s)\<lparr>nodes := (nodes (queue s))(a \<mapsto> \<lparr>val = x, nxt = None\<rparr>)\<rparr>\<rparr>)"
      by (auto simp: monitor_step_def Let_def alloc_node_def split: option.splits if_splits)
    let ?q' = "(queue s)\<lparr>nodes := (nodes (queue s))(a \<mapsto> \<lparr>val = x, nxt = None\<rparr>)\<rparr>"
    from r have ch: "chain (nodes (queue s)) (head (queue s)) cells" by (simp add: represents_def)
    from chain_allocated[OF ch, of a] fresh have an: "a \<notin> fst ` set cells" by auto
    from r chain_alloc[OF ch an] have r': "represents ?q' cells" by (simp add: represents_def)
    have "monitor_inv (set_thread t (?th\<lparr>tpc := ELock a\<rparr>) (s\<lparr>queue := ?q'\<rparr>)) cells"
    proof (rule monitor_inv_queue[OF inv t _ r'])
      fix u b
      assume u: "u < length (threads s)"
        and pb: "pending (tpc (if u = t then ?th\<lparr>tpc := ELock a\<rparr> else threads s ! u)) = Some b"
      show "b \<notin> fst ` set cells \<and> (\<exists>x. nodes ?q' b = Some \<lparr>val = x, nxt = None\<rparr>) \<and>
          (\<forall>w < length (threads s). w \<noteq> u \<longrightarrow>
             pending (tpc (if w = t then ?th\<lparr>tpc := ELock a\<rparr> else threads s ! w)) \<noteq> Some b)"
      proof (cases "u = t")
        case True
        with pb have "b = a" by simp
        with an fresh True P show ?thesis by fastforce
      next
        case False
        with pb have pb': "pending (tpc (threads s ! u)) = Some b" by simp
        from P[OF u pb'] fresh have "b \<noteq> a" by auto
        with P[OF u pb'] EMalloc show ?thesis by auto
      qed
    qed (use EMalloc in auto)
    with s' show ?thesis by blast
  next
    case (ELock a)
    with st t have l: "lock s = None"
      and s': "s' = set_thread t (?th\<lparr>tpc := ELink a\<rparr>) (s\<lparr>lock := Some t\<rparr>)"
      by (auto simp: monitor_step_def Let_def split: if_splits)
    have "monitor_inv (set_thread t (?th\<lparr>tpc := ELink a\<rparr>) (s\<lparr>lock := Some t\<rparr>)) cells"
      by (rule monitor_inv_pc[OF inv t]) (use ELock l in auto)
    with s' show ?thesis by blast
  next
    case (ELink a)
    from P[OF t, of a] ELink obtain x where an: "a \<notin> fst ` set cells"
      and na: "nodes (queue s) a = Some \<lparr>val = x, nxt = None\<rparr>"
      and oth: "\<forall>w < length (threads s). w \<noteq> t \<longrightarrow> pending (tpc (threads s ! w)) \<noteq> Some a"
      by auto
    from link_represents[OF r an na] obtain q' where lk: "link_node a (queue s) = Inr q'"
      and r': "represents q' (cells @ [(a, x)])"
      and fr: "\<forall>b. b \<notin> fst ` set cells \<longrightarrow> nodes q' b = nodes (queue s) b" by blast
    from st t ELink lk have s': "s' = set_thread t (?th\<lparr>tpc := ESignal\<rparr>) (s\<lparr>queue := q'\<rparr>)"
      by (auto simp: monitor_step_def Let_def)
    have "monitor_inv (set_thread t (?th\<lparr>tpc := ESignal\<rparr>) (s\<lparr>queue := q'\<rparr>)) (cells @ [(a, x)])"
    proof (rule monitor_inv_queue[OF inv t _ r'])
      fix u b
      assume u: "u < length (threads s)"
        and pb: "pending (tpc (if u = t then ?th\<lparr>tpc := ESignal\<rparr> else threads s ! u)) = Some b"
      then have ut: "u \<noteq> t" and pb': "pending (tpc (threads s ! u)) = Some b"
        by (auto split: if_splits)
      from oth u ut pb' have "b \<noteq> a" by auto
      with P[OF u pb'] fr
      show "b \<notin> fst ` set (cells @ [(a, x)]) \<and> (\<exists>x. nodes q' b = Some \<lparr>val = x, nxt = None\<rparr>) \<and>
          (\<forall>w < length (threads s). w \<noteq> u \<longrightarrow>
             pending (tpc (if w = t then ?th\<lparr>tpc := ESignal\<rparr> else threads s ! w)) \<noteq> Some b)"
        by auto
    qed (use ELink in auto)
    with s' show ?thesis by blast
  next
    case ESignal
    with st t have s': "s' = set_thread t (?th\<lparr>tpc := EUnlock\<rparr>) s"
      by (auto simp: monitor_step_def Let_def)
    have "monitor_inv (set_thread t (?th\<lparr>tpc := EUnlock\<rparr>) s) cells"
      by (rule monitor_inv_same_lock[OF inv t]) (use ESignal in auto)
    with s' show ?thesis by blast
  next
    case EUnlock
    with st t have s': "s' = set_thread t (?th\<lparr>tpc := Idle\<rparr>) (s\<lparr>lock := None\<rparr>)"
      by (auto simp: monitor_step_def Let_def)
    have "monitor_inv (set_thread t (?th\<lparr>tpc := Idle\<rparr>) (s\<lparr>lock := None\<rparr>)) cells"
      by (rule monitor_inv_pc[OF inv t]) (use EUnlock in auto)
    with s' show ?thesis by blast
  next
    case DLock
    with st t have l: "lock s = None"
      and s': "s' = set_thread t (?th\<lparr>tpc := DTest\<rparr>) (s\<lparr>lock := Some t\<rparr>)"
      by (auto simp: monitor_step_def Let_def split: if_splits)
    have "monitor_inv (set_thread t (?th\<lparr>tpc := DTest\<rparr>) (s\<lparr>lock := Some t\<rparr>)) cells"
      by (rule monitor_inv_pc[OF inv t]) (use DLock l in auto)
    with s' show ?thesis by blast
  next
    case DTest
    show ?thesis
    proof (cases "head (queue s) = None")
      case True
      with st t DTest have s': "s' = set_thread t (?th\<lparr>tpc := DWait\<rparr>) (s\<lparr>lock := None\<rparr>)"
        by (auto simp: monitor_step_def Let_def)
      have "monitor_inv (set_thread t (?th\<lparr>tpc := DWait\<rparr>) (s\<lparr>lock := None\<rparr>)) cells"
        by (rule monitor_inv_pc[OF inv t]) (use DTest in auto)
      with s' show ?thesis by blast
    next
      case False
      with st t DTest have s': "s' = set_thread t (?th\<lparr>tpc := DTake\<rparr>) s"
        by (auto simp: monitor_step_def Let_def)
      from False r have ne: "cells \<noteq> []" by (auto simp: represents_def)
      have "monitor_inv (set_thread t (?th\<lparr>tpc := DTake\<rparr>) s) cells"
        by (rule monitor_inv_same_lock[OF inv t]) (use DTest ne in auto)
      with s' show ?thesis by blast
    qed
  next
    case DWait
    with st t have s': "s' = set_thread t (?th\<lparr>tpc := DWake\<rparr>) s"
      by (auto simp: monitor_step_def Let_def)
    have "monitor_inv (set_thread t (?th\<lparr>tpc := DWake\<rparr>) s) cells"
      by (rule monitor_inv_same_lock[OF inv t]) (use DWait in auto)
    with s' show ?thesis by blast
  next
    case DWake
    with st t have l: "lock s = None"
      and s': "s' = set_thread t (?th\<lparr>tpc := DTest\<rparr>) (s\<lparr>lock := Some t\<rparr>)"
      by (auto simp: monitor_step_def Let_def split: if_splits)
    have "monitor_inv (set_thread t (?th\<lparr>tpc := DTest\<rparr>) (s\<lparr>lock := Some t\<rparr>)) cells"
      by (rule monitor_inv_pc[OF inv t]) (use DWake l in auto)
    with s' show ?thesis by blast
  next
    case DTake
    with inv t have "cells \<noteq> []" by (auto simp: monitor_inv_def)
    then obtain a v rest where c: "cells = (a, v) # rest" by (cases cells) auto
    from dequeue_represents[of "queue s" a v rest] r c obtain q' where
      d: "dequeue (queue s) = Returns v q'" and r': "represents q' rest"
      and fr: "\<forall>b. b \<noteq> a \<longrightarrow> nodes q' b = nodes (queue s) b" by auto
    from st t DTake d have s': "s' = set_thread t (?th\<lparr>tpc := DUnlock v\<rparr>) (s\<lparr>queue := q'\<rparr>)"
      by (auto simp: monitor_step_def Let_def)
    have "monitor_inv (set_thread t (?th\<lparr>tpc := DUnlock v\<rparr>) (s\<lparr>queue := q'\<rparr>)) rest"
    proof (rule monitor_inv_queue[OF inv t _ r'])
      fix u b
      assume u: "u < length (threads s)"
        and pb: "pending (tpc (if u = t then ?th\<lparr>tpc := DUnlock v\<rparr> else threads s ! u)) = Some b"
      then have ut: "u \<noteq> t" and pb': "pending (tpc (threads s ! u)) = Some b"
        by (auto split: if_splits)
      from P[OF u pb'] c fr DTake
      show "b \<notin> fst ` set rest \<and> (\<exists>x. nodes q' b = Some \<lparr>val = x, nxt = None\<rparr>) \<and>
          (\<forall>w < length (threads s). w \<noteq> u \<longrightarrow>
             pending (tpc (if w = t then ?th\<lparr>tpc := DUnlock v\<rparr> else threads s ! w)) \<noteq> Some b)"
        by auto
    qed (use DTake in auto)
    with s' show ?thesis by blast
  next
    case (DUnlock v)
    with st t have s': "s' = set_thread t (?th\<lparr>tpc := Idle, got := got ?th @ [v]\<rparr>) (s\<lparr>lock := None\<rparr>)"
      by (auto simp: monitor_step_def Let_def)
    have "monitor_inv (set_thread t (?th\<lparr>tpc := Idle, got := got ?th @ [v]\<rparr>) (s\<lparr>lock := None\<rparr>)) cells"
      by (rule monitor_inv_pc[OF inv t]) (use DUnlock in auto)
    with s' show ?thesis by blast
  qed
qed


subsection \<open>Executions of the monitor\<close>

lemma monitor_init_inv: "monitor_inv (monitor_init q0 progs) []"
  by (auto simp: monitor_inv_def monitor_init_def queue_init_represents)

lemma monitor_exec_inv:
  "monitor_inv s cells \<Longrightarrow> monitor_exec sched s = Some s' \<Longrightarrow> \<exists>cells'. monitor_inv s' cells'"
proof (induction sched arbitrary: s cells)
  case Nil
  then show ?case by auto
next
  case (Cons tm sched)
  obtain t m where tm: "tm = (t, m)" by (cases tm)
  from Cons.prems(2) tm obtain s1 where st: "monitor_step t m s = Next s1"
    and ex: "monitor_exec sched s1 = Some s'"
    by (auto split: step.splits)
  from monitor_inv_step[OF Cons.prems(1) st] obtain cells1 where "monitor_inv s1 cells1" ..
  from Cons.IH[OF this ex] show ?case .
qed

text \<open>
  C5 (the wait loop of \<open>dequeue\<close>). In every state reached by any schedule of any number of
  enqueuing and dequeuing threads, with wake-ups at arbitrary moments: the loop test sends a
  dequeuer into the wait when the queue is empty and past the loop otherwise; a wake-up only
  leads back to the mutex and from there to the same test; the statements after the loop are
  entered from the test alone, with \<open>head\<close> not \<open>NULL\<close>. A dequeuer past the loop owns the
  mutex and finds a non-empty list; its next step removes the head element, and the call
  returns that element.
\<close>

theorem dequeue_rechecks_predicate:
  assumes "monitor_exec sched (monitor_init q0 progs) = Some s" and "t < length (threads s)"
  shows "(tpc (threads s ! t) = DTake \<longrightarrow>
            lock s = Some t \<and>
            (\<exists>a v cells s'. represents (queue s) ((a, v) # cells) \<and>
               monitor_step t m s = Next s' \<and> represents (queue s') cells \<and>
               tpc (threads s' ! t) = DUnlock v)) \<and>
         (\<forall>s'. monitor_step t m s = Next s' \<longrightarrow>
            (tpc (threads s ! t) = DTest \<longrightarrow>
               queue s' = queue s \<and>
               tpc (threads s' ! t) = (if head (queue s) = None then DWait else DTake)) \<and>
            (tpc (threads s ! t) = DWait \<longrightarrow>
               queue s' = queue s \<and> tpc (threads s' ! t) = DWake) \<and>
            (tpc (threads s ! t) = DWake \<longrightarrow>
               queue s' = queue s \<and> tpc (threads s' ! t) = DTest \<and> lock s' = Some t) \<and>
            (tpc (threads s' ! t) = DTake \<longrightarrow>
               tpc (threads s ! t) = DTest \<and> head (queue s) \<noteq> None) \<and>
            (\<forall>v. tpc (threads s ! t) = DUnlock v \<longrightarrow>
               tpc (threads s' ! t) = Idle \<and> got (threads s' ! t) = got (threads s ! t) @ [v]))"
proof -
  from monitor_exec_inv[OF monitor_init_inv assms(1)] obtain cells where inv: "monitor_inv s cells" ..
  have take: "lock s = Some t \<and>
            (\<exists>a v cells s'. represents (queue s) ((a, v) # cells) \<and>
               monitor_step t m s = Next s' \<and> represents (queue s') cells \<and>
               tpc (threads s' ! t) = DUnlock v)" if d: "tpc (threads s ! t) = DTake"
  proof -
    from inv assms(2) d have l: "lock s = Some t" and "cells \<noteq> []"
      and r: "represents (queue s) cells" by (auto simp: monitor_inv_def)
    then obtain a v rest where c: "cells = (a, v) # rest" by (cases cells) auto
    from dequeue_represents[of "queue s" a v rest] r c obtain q' where
      dq: "dequeue (queue s) = Returns v q'" and r': "represents q' rest" by auto
    let ?s' = "set_thread t ((threads s ! t)\<lparr>tpc := DUnlock v\<rparr>) (s\<lparr>queue := q'\<rparr>)"
    from assms(2) d dq have "monitor_step t m s = Next ?s'"
      by (simp add: monitor_step_def Let_def)
    moreover have "represents (queue ?s') rest" using r' by (simp add: set_thread_def)
    moreover have "tpc (threads ?s' ! t) = DUnlock v" using assms(2) by (simp add: set_thread_def)
    ultimately show ?thesis using l r c by blast
  qed
  have steps: "(tpc (threads s ! t) = DTest \<longrightarrow>
               queue s' = queue s \<and>
               tpc (threads s' ! t) = (if head (queue s) = None then DWait else DTake)) \<and>
            (tpc (threads s ! t) = DWait \<longrightarrow>
               queue s' = queue s \<and> tpc (threads s' ! t) = DWake) \<and>
            (tpc (threads s ! t) = DWake \<longrightarrow>
               queue s' = queue s \<and> tpc (threads s' ! t) = DTest \<and> lock s' = Some t) \<and>
            (tpc (threads s' ! t) = DTake \<longrightarrow>
               tpc (threads s ! t) = DTest \<and> head (queue s) \<noteq> None) \<and>
            (\<forall>v. tpc (threads s ! t) = DUnlock v \<longrightarrow>
               tpc (threads s' ! t) = Idle \<and> got (threads s' ! t) = got (threads s ! t) @ [v])"
    if st: "monitor_step t m s = Next s'" for s'
    using st assms(2)
    by (cases "tpc (threads s ! t)")
       (auto simp: monitor_step_def Let_def set_thread_def alloc_node_def
             split: if_splits list.splits mq_call.splits option.splits sum.splits dequeue_result.splits)
  from take steps show ?thesis by blast
qed


text \<open>
  A consumer finds the queue empty and waits, a producer enqueues 5 at address 4, the
  consumer wakes, tests again and is about to take the element.
\<close>

theorem dequeue_rechecks_predicate_witness:
  "monitor_exec [(1, None), (1, None), (1, None), (1, None),
                 (0, None), (0, Some 4), (0, None), (0, None), (0, None), (0, None),
                 (1, None), (1, None)]
     (monitor_init \<lparr>head = None, tail = None, nodes = Map.empty\<rparr> ([CallEnqueue 5] # [CallDequeue] # [])) =
     Some \<lparr>queue = \<lparr>head = Some 4, tail = Some 4, nodes = [4 \<mapsto> \<lparr>val = 5, nxt = None\<rparr>]\<rparr>,
           lock = Some 1,
           threads = [\<lparr>tpc = Idle, todo = [], got = []\<rparr>, \<lparr>tpc = DTake, todo = [], got = []\<rparr>]\<rparr> \<and>
   (1::nat) < length (threads
          \<lparr>queue = \<lparr>head = Some 4, tail = Some 4, nodes = [4 \<mapsto> \<lparr>val = 5, nxt = None\<rparr>]\<rparr>,
           lock = Some 1,
           threads = [\<lparr>tpc = Idle, todo = [], got = []\<rparr>, \<lparr>tpc = DTake, todo = [], got = []\<rparr>]\<rparr>) \<and>
   lock \<lparr>queue = \<lparr>head = Some 4, tail = Some 4, nodes = [4 \<mapsto> \<lparr>val = 5, nxt = None\<rparr>]\<rparr>,
           lock = Some 1,
           threads = [\<lparr>tpc = Idle, todo = [], got = []\<rparr>, \<lparr>tpc = DTake, todo = [], got = []\<rparr>]\<rparr> = Some 1 \<and>
   monitor_step 1 None
         \<lparr>queue = \<lparr>head = Some 4, tail = Some 4, nodes = [4 \<mapsto> \<lparr>val = 5, nxt = None\<rparr>]\<rparr>,
           lock = Some 1,
           threads = [\<lparr>tpc = Idle, todo = [], got = []\<rparr>, \<lparr>tpc = DTake, todo = [], got = []\<rparr>]\<rparr> =
     Next \<lparr>queue = \<lparr>head = None, tail = None, nodes = Map.empty\<rparr>,
           lock = Some 1,
           threads = [\<lparr>tpc = Idle, todo = [], got = []\<rparr>, \<lparr>tpc = DUnlock 5, todo = [], got = []\<rparr>]\<rparr>"
proof -
  let ?S = "\<lparr>queue = \<lparr>head = Some 4, tail = Some 4, nodes = [4 \<mapsto> \<lparr>val = 5, nxt = None\<rparr>]\<rparr>,
           lock = Some 1,
           threads = [\<lparr>tpc = Idle, todo = [], got = []\<rparr>, \<lparr>tpc = DTake, todo = [], got = []\<rparr>]\<rparr>"
  have run: "monitor_exec [(1, None), (1, None), (1, None), (1, None),
                 (0, None), (0, Some 4), (0, None), (0, None), (0, None), (0, None),
                 (1, None), (1, None)]
     (monitor_init \<lparr>head = None, tail = None, nodes = Map.empty\<rparr> ([CallEnqueue 5] # [CallDequeue] # [])) =
     Some ?S"
    by (simp add: monitor_init_def monitor_step_def set_thread_def queue_init_def
          alloc_node_def link_node_def)
  have len: "(1::nat) < length (threads ?S)" by simp
  have st: "monitor_step 1 None ?S =
     Next \<lparr>queue = \<lparr>head = None, tail = None, nodes = Map.empty\<rparr>,
           lock = Some 1,
           threads = [\<lparr>tpc = Idle, todo = [], got = []\<rparr>, \<lparr>tpc = DUnlock 5, todo = [], got = []\<rparr>]\<rparr>"
    by (simp add: monitor_step_def set_thread_def dequeue_def fun_eq_iff)
  from dequeue_rechecks_predicate[OF run len, of None] have "lock ?S = Some 1" by simp
  with run len st show ?thesis by blast
qed

section \<open>MonitorQueue: a consumer that never returns\<close>

lemma hang_reached:
  "tsqueue_exec hang_schedule (tsqueue_init 1 2 1 \<lparr>head = None, tail = None, nodes = Map.empty\<rparr>) =
     Some (hang_state DWait None)"
  by (simp add: hang_schedule_def hang_state_def tsqueue_init_def tsqueue_step_def tq_inside_def
        tq_returned_def tq_goto_def tq_call_def monitor_init_def monitor_step_def set_thread_def
        queue_init_def alloc_node_def link_node_def dequeue_def upt_rec fun_eq_iff)


lemma hang_state_step:
  "tsqueue_step t m (hang_state DWait None) = (if t = 2 then Next (hang_state DWake None) else Blocked)"
  "tsqueue_step t m (hang_state DWake None) = (if t = 2 then Next (hang_state DTest (Some 2)) else Blocked)"
  "tsqueue_step t m (hang_state DTest (Some 2)) = (if t = 2 then Next (hang_state DWait None) else Blocked)"
proof -
  have t: "t = 0 \<or> t = 1 \<or> t = 2 \<or> 3 \<le> t" by arith
  note defs = hang_state_def tsqueue_step_def tq_inside_def tq_returned_def tq_goto_def
    monitor_step_def set_thread_def
  show "tsqueue_step t m (hang_state DWait None) =
          (if t = 2 then Next (hang_state DWake None) else Blocked)"
    using t by (auto simp: defs)
  show "tsqueue_step t m (hang_state DWake None) =
          (if t = 2 then Next (hang_state DTest (Some 2)) else Blocked)"
    using t by (auto simp: defs)
  show "tsqueue_step t m (hang_state DTest (Some 2)) =
          (if t = 2 then Next (hang_state DWait None) else Blocked)"
    using t by (auto simp: defs)
qed

lemma hanging_step:
  "hanging s \<Longrightarrow> tsqueue_step t m s = Next s' \<Longrightarrow> hanging s'"
  by (auto simp: hanging_def hang_state_step split: if_splits)

lemma hanging_exec:
  "hanging s \<Longrightarrow> tsqueue_exec sched s = Some s' \<Longrightarrow> hanging s'"
proof (induction sched arbitrary: s)
  case Nil
  then show ?case by simp
next
  case (Cons tm sched)
  obtain t m where tm: "tm = (t, m)" by (cases tm)
  from Cons.prems(2) tm obtain s1 where st: "tsqueue_step t m s = Next s1"
    and ex: "tsqueue_exec sched s1 = Some s'"
    by (auto split: step.splits)
  from Cons.IH[OF hanging_step[OF Cons.prems(1) st] ex] show ?case .
qed

lemma tsqueue_exec_append:
  "tsqueue_exec (a @ b) s =
     (case tsqueue_exec a s of None \<Rightarrow> None | Some s' \<Rightarrow> tsqueue_exec b s')"
proof (induction a arbitrary: s)
  case Nil
  show ?case by simp
next
  case (Cons tm a)
  obtain t m where tm: "tm = (t, m)" by (cases tm)
  show ?case using Cons.IH by (simp add: tm split: step.splits)
qed

text \<open>
  C7 (a closed and drained queue releases its blocked consumers) does not hold of tsqueue.c.
  After the run \<open>hang_schedule\<close> of \<open>./tsqueue 1 2 1\<close> the producer has finished, the one item
  is consumed (\<open>consumed_count = total_items\<close>) and the queue is empty: this is the situation in
  which \<open>main\<close> broadcasts on \<open>not_empty\<close> to wake the consumers that still wait. Whatever
  happens next, consumer 2 stays inside \<open>dequeue\<close>: every wake-up leads it back to the test
  \<open>q->head == NULL\<close> and to sleep again. Its call never returns, and no other thread can take
  a step.
\<close>

theorem blocked_consumer_never_returns:
  assumes "tsqueue_exec (hang_schedule @ sched)
             (tsqueue_init 1 2 1 \<lparr>head = None, tail = None, nodes = Map.empty\<rparr>) = Some s"
  shows "tq_at (tq_threads s ! 0) = PtExit \<and> tq_at (tq_threads s ! 1) = CtExit \<and>
         consumed_count s = total_items s \<and> head (queue (tq_monitor s)) = None \<and>
         tq_at (tq_threads s ! 2) = CtInDequeue \<and>
         tpc (threads (tq_monitor s) ! 2) \<in> {DTest, DWait, DWake} \<and>
         (\<forall>t m. t \<noteq> 2 \<longrightarrow> tsqueue_step t m s = Blocked)"
proof -
  from assms have "tsqueue_exec sched (hang_state DWait None) = Some s"
    unfolding tsqueue_exec_append hang_reached by simp
  from hanging_exec[OF _ this] have h: "hanging s" by (simp add: hanging_def)
  then have "tsqueue_step t m s = Blocked" if "t \<noteq> 2" for t m
    using that by (auto simp: hanging_def hang_state_step)
  moreover from h have "tq_at (tq_threads s ! 0) = PtExit \<and> tq_at (tq_threads s ! 1) = CtExit \<and>
         consumed_count s = total_items s \<and> head (queue (tq_monitor s)) = None \<and>
         tq_at (tq_threads s ! 2) = CtInDequeue \<and>
         tpc (threads (tq_monitor s) ! 2) \<in> {DTest, DWait, DWake}"
    by (auto simp: hanging_def hang_state_def)
  ultimately show ?thesis by blast
qed

text \<open>Consumer 2 wakes, takes the lock, tests, sleeps and wakes again: it is where it was.\<close>

theorem blocked_consumer_never_returns_witness:
  "tsqueue_exec hang_schedule
     (tsqueue_init 1 2 1 \<lparr>head = None, tail = None, nodes = Map.empty\<rparr>) =
     Some (hang_state DWait None) \<and>
   tsqueue_exec (hang_schedule @ [(2, None), (2, None), (2, None), (2, None)])
     (tsqueue_init 1 2 1 \<lparr>head = None, tail = None, nodes = Map.empty\<rparr>) =
     Some (hang_state DWake None) \<and>
   tq_at (tq_threads (hang_state DWake None) ! 2) = CtInDequeue \<and>
   tpc (threads (tq_monitor (hang_state DWake None)) ! 2) = DWake \<and>
   consumed_count (hang_state DWake None) = total_items (hang_state DWake None)"
proof -
  have run: "tsqueue_exec (hang_schedule @ [(2, None), (2, None), (2, None), (2, None)])
     (tsqueue_init 1 2 1 \<lparr>head = None, tail = None, nodes = Map.empty\<rparr>) =
     Some (hang_state DWake None)"
    unfolding tsqueue_exec_append hang_reached by (simp add: hang_state_step)
  from blocked_consumer_never_returns[OF run]
  have "tq_at (tq_threads (hang_state DWake None) ! 2) = CtInDequeue"
    and "consumed_count (hang_state DWake None) = total_items (hang_state DWake None)"
    by blast+
  moreover have "tpc (threads (tq_monitor (hang_state DWake None)) ! 2) = DWake"
    by (simp add: hang_state_def)
  ultimately show ?thesis using run hang_reached by blast
qed

section \<open>BoundedChannel: verification\<close>

subsection \<open>One statement of one thread\<close>

lemma filter_length_pos:
  "k < length xs \<Longrightarrow> P (xs ! k) \<Longrightarrow> 0 < length (filter P xs)"
  by (metis filter_empty_conv length_greater_0_conv nth_mem)

lemma in_progress_pos:
  assumes "chan_inv s" "t < length (workers s)" "between_sems (th_pc (workers s ! t))"
  shows "0 < buffer_size s"
proof -
  from assms(2,3) have "0 < in_progress s"
    unfolding in_progress_def by (rule filter_length_pos)
  with assms(1) show ?thesis by (simp add: chan_inv_def)
qed

lemma chan_step_shape:
  assumes st: "chan_step t r s = Next (e, s')"
  defines "p \<equiv> th_pc (workers s ! t)" and "p' \<equiv> th_pc (workers s' ! t)"
  shows "t < length (workers s)"
    and "workers s' = (workers s)[t := workers s' ! t]"
    and "buffer_size s' = buffer_size s \<and> length (buffer s') = length (buffer s) \<and>
         items_to_produce s' = items_to_produce s"
    and "full_slots s' + empty_slots s' + (if between_sems p' then 1 else 0) =
         full_slots s + empty_slots s + (if between_sems p then 1 else 0)"
    and "mutex_buffer s' = (if in_critical p' \<and> \<not> in_critical p then Some t
            else if in_critical p \<and> \<not> in_critical p' then None else mutex_buffer s)"
    and "in_critical p' \<and> \<not> in_critical p \<longrightarrow> mutex_buffer s = None"
    and "in_idx s' = in_idx s \<or> 0 < buffer_size s \<and> in_idx s' = (in_idx s + 1) mod buffer_size s"
    and "out s' = out s \<or> 0 < buffer_size s \<and> out s' = (out s + 1) mod buffer_size s"
    and "producer_pc p' = producer_pc p"
    and "p \<noteq> PrAdvance \<longrightarrow> in_idx s' = in_idx s"
    and "p \<noteq> CoAdvance \<longrightarrow> out s' = out s"
proof -
  from st have t: "t < length (workers s)"
    by (auto simp: chan_step_def split: if_splits)
  then show "t < length (workers s)" .
  note defs = chan_step_def Let_def set_worker_def p_def p'_def
  show "workers s' = (workers s)[t := workers s' ! t]"
    using st t by (cases "th_pc (workers s ! t)") (auto simp: defs split: if_splits)
  show "buffer_size s' = buffer_size s \<and> length (buffer s') = length (buffer s) \<and>
         items_to_produce s' = items_to_produce s"
    using st t by (cases "th_pc (workers s ! t)") (auto simp: defs split: if_splits)
  show "full_slots s' + empty_slots s' + (if between_sems p' then 1 else 0) =
         full_slots s + empty_slots s + (if between_sems p then 1 else 0)"
    using st t by (cases "th_pc (workers s ! t)") (auto simp: defs split: if_splits)
  show "mutex_buffer s' = (if in_critical p' \<and> \<not> in_critical p then Some t
            else if in_critical p \<and> \<not> in_critical p' then None else mutex_buffer s)"
    using st t by (cases "th_pc (workers s ! t)") (auto simp: defs split: if_splits)
  show "in_critical p' \<and> \<not> in_critical p \<longrightarrow> mutex_buffer s = None"
    using st t by (cases "th_pc (workers s ! t)") (auto simp: defs split: if_splits)
  show "in_idx s' = in_idx s \<or> 0 < buffer_size s \<and> in_idx s' = (in_idx s + 1) mod buffer_size s"
    using st t by (cases "th_pc (workers s ! t)") (auto simp: defs split: if_splits)
  show "out s' = out s \<or> 0 < buffer_size s \<and> out s' = (out s + 1) mod buffer_size s"
    using st t by (cases "th_pc (workers s ! t)") (auto simp: defs split: if_splits)
  show "producer_pc p' = producer_pc p"
    using st t by (cases "th_pc (workers s ! t)") (auto simp: defs split: if_splits)
  show "p \<noteq> PrAdvance \<longrightarrow> in_idx s' = in_idx s"
    using st t by (cases "th_pc (workers s ! t)") (auto simp: defs split: if_splits)
  show "p \<noteq> CoAdvance \<longrightarrow> out s' = out s"
    using st t by (cases "th_pc (workers s ! t)") (auto simp: defs split: if_splits)
qed


lemma chan_inv_step:
  assumes inv: "chan_inv s" and st: "chan_step t r s = Next (e, s')"
  shows "chan_inv s'"
proof -
  note sh = chan_step_shape[OF st]
  let ?p = "th_pc (workers s ! t)" and ?p' = "th_pc (workers s' ! t)"
  have t: "t < length (workers s)" by (rule sh(1))
  obtain th' where w: "workers s' = (workers s)[t := th']"
    using sh(2) by blast
  have len: "length (workers s') = length (workers s)"
    by (simp add: w)
  have nth: "workers s' ! u = workers s ! u" if "u \<noteq> t" for u
    using that by (simp add: w)
  have tht: "workers s' ! t = th'" using t by (simp add: w)
  have M: "\<And>u. mutex_buffer s = Some u \<longleftrightarrow> u < length (workers s) \<and> in_critical (th_pc (workers s ! u))"
    using inv by (simp add: chan_inv_def)
  have 1: "length (buffer s') = buffer_size s'" using inv sh(3) by (simp add: chan_inv_def)
  have bs: "buffer_size s' = buffer_size s" using sh(3) by simp
  have 2: "0 < buffer_size s' \<longrightarrow> in_idx s' < buffer_size s' \<and> out s' < buffer_size s'"
  proof
    assume "0 < buffer_size s'"
    with bs have pos: "0 < buffer_size s" by simp
    with inv have i: "in_idx s < buffer_size s" and o: "out s < buffer_size s"
      by (simp_all add: chan_inv_def)
    from sh(7) have "in_idx s' < buffer_size s"
    proof
      assume "in_idx s' = in_idx s"
      with i show ?thesis by simp
    next
      assume "0 < buffer_size s \<and> in_idx s' = (in_idx s + 1) mod buffer_size s"
      then show ?thesis by simp
    qed
    moreover from sh(8) have "out s' < buffer_size s"
    proof
      assume "out s' = out s"
      with o show ?thesis by simp
    next
      assume "0 < buffer_size s \<and> out s' = (out s + 1) mod buffer_size s"
      then show ?thesis by simp
    qed
    ultimately show "in_idx s' < buffer_size s' \<and> out s' < buffer_size s'"
      using bs by simp
  qed
  have "in_progress s' + (if between_sems ?p then 1 else 0) =
        in_progress s + (if between_sems ?p' then 1 else 0)"
    using filter_update_length[OF t, of "\<lambda>th. between_sems (th_pc th)" th'] tht
    by (simp add: in_progress_def w)
  with sh(4) inv have 3: "full_slots s' + empty_slots s' + in_progress s' = buffer_size s'"
    using sh(3) by (simp add: chan_inv_def split: if_splits)
  have 4: "mutex_buffer s' = Some u \<longleftrightarrow> u < length (workers s') \<and> in_critical (th_pc (workers s' ! u))" for u
  proof (cases "u = t")
    case True
    with sh(5) M[of t] t len show ?thesis by auto
  next
    case False
    with sh(5,6) M[of u] M[of t] t len nth[OF False] show ?thesis by auto
  qed
  from 1 2 3 4 show ?thesis by (simp add: chan_inv_def)
qed

lemma chan_no_crash:
  assumes inv: "chan_inv s"
  shows "chan_step t r s \<noteq> Stops err"
proof (cases "t < length (workers s)")
  case False
  then show ?thesis by (simp add: chan_step_def)
next
  case True
  from in_progress_pos[OF inv True] inv
  have "between_sems (th_pc (workers s ! t)) \<Longrightarrow>
          0 < buffer_size s \<and> in_idx s < length (buffer s) \<and> out s < length (buffer s)"
    by (simp add: chan_inv_def)
  with True show ?thesis
    by (cases "th_pc (workers s ! t)") (auto simp: chan_step_def Let_def)
qed


subsection \<open>The trace of a thread\<close>

lemma chan_step_event:
  assumes st: "chan_step t r s = Next (e, s')"
  defines "p \<equiv> th_pc (workers s ! t)"
  shows "after_event s' e (th_pc (workers s' ! t))"
    and "p = PrLoop \<longrightarrow> (\<exists>b. e = Test b)"
    and "p = CoWaitFull \<longrightarrow> e = WaitSem FullSlots"
    and "after_event s e0 p \<longrightarrow>
           (if producer_pc p then put_next (buffer_size s) e0 e else take_next (buffer_size s) e0 e)"
proof -
  from st have t: "t < length (workers s)"
    by (auto simp: chan_step_def split: if_splits)
  note defs = chan_step_def Let_def set_worker_def p_def
  show "after_event s' e (th_pc (workers s' ! t))"
    using st t by (cases "th_pc (workers s ! t)") (auto simp: defs split: if_splits)
  show "p = PrLoop \<longrightarrow> (\<exists>b. e = Test b)"
    using st t by (auto simp: defs split: if_splits)
  show "p = CoWaitFull \<longrightarrow> e = WaitSem FullSlots"
    using st t by (auto simp: defs split: if_splits)
  show "after_event s e0 p \<longrightarrow>
           (if producer_pc p then put_next (buffer_size s) e0 e else take_next (buffer_size s) e0 e)"
  proof
    assume a: "after_event s e0 p"
    show "if producer_pc p then put_next (buffer_size s) e0 e else take_next (buffer_size s) e0 e"
      using st t a
      by (cases e0; cases "th_pc (workers s ! t)")
         (auto simp: defs split: if_splits semaphore.splits)
  qed
qed


lemma trace_ok_self:
  assumes st: "chan_step t r s = Next (e, s')" and ok: "trace_ok s t es"
  shows "trace_ok s' t (es @ [e])"
proof -
  note sh = chan_step_shape[OF st] and ev = chan_step_event[OF st]
  let ?p = "th_pc (workers s ! t)" and ?p' = "th_pc (workers s' ! t)"
  have bs: "buffer_size s' = buffer_size s" using sh(3) by simp
  have pp: "producer_pc ?p' = producer_pc ?p" by (rule sh(9))
  have a': "after_event s' e ?p'" by (rule ev(1))
  show ?thesis
  proof (cases "es = []")
    case True
    with ok have "?p = PrLoop \<or> ?p = CoWaitFull" by (simp add: trace_ok_def Let_def)
    then show ?thesis
    proof
      assume p: "?p = PrLoop"
      with ev(2) obtain b where "e = Test b" by blast
      with True a' pp p show ?thesis by (simp add: trace_ok_def Let_def)
    next
      assume p: "?p = CoWaitFull"
      with ev(3) have "e = WaitSem FullSlots" by blast
      with True a' pp p show ?thesis by (simp add: trace_ok_def Let_def)
    qed
  next
    case False
    with ok have a: "after_event s (last es) ?p" by (simp add: trace_ok_def Let_def)
    with ev(4)[of "last es"]
    have nx: "if producer_pc ?p then put_next (buffer_size s) (last es) e
              else take_next (buffer_size s) (last es) e" by blast
    show ?thesis
    proof (cases "producer_pc ?p")
      case True
      with ok False have "successively (put_next (buffer_size s)) es" "\<exists>b. hd es = Test b"
        by (simp_all add: trace_ok_def Let_def)
      with nx True False a' pp bs show ?thesis
        by (simp add: trace_ok_def Let_def successively_append_iff)
    next
      case F: False
      with ok False have "successively (take_next (buffer_size s)) es" "hd es = WaitSem FullSlots"
        by (simp_all add: trace_ok_def Let_def)
      with nx F False a' pp bs show ?thesis
        by (simp add: trace_ok_def Let_def successively_append_iff)
    qed
  qed
qed

lemma after_event_frame:
  assumes "after_event s e0 p" "p = PrAdvance \<longrightarrow> in_idx s' = in_idx s"
    "p = CoAdvance \<longrightarrow> out s' = out s"
  shows "after_event s' e0 p"
  using assms by (cases e0) auto

lemma trace_ok_other:
  assumes inv: "chan_inv s" and st: "chan_step u r s = Next (e, s')" and ne: "u \<noteq> t"
    and t: "t < length (workers s)" and ok: "trace_ok s t es"
  shows "trace_ok s' t es"
proof -
  note sh = chan_step_shape[OF st]
  obtain th' where w: "workers s' = (workers s)[u := th']" using sh(2) by blast
  from ne have same: "workers s' ! t = workers s ! t" by (simp add: w)
  have bs: "buffer_size s' = buffer_size s" using sh(3) by simp
  have M: "\<And>v. mutex_buffer s = Some v \<longleftrightarrow> v < length (workers s) \<and> in_critical (th_pc (workers s ! v))"
    using inv by (simp add: chan_inv_def)
  let ?p = "th_pc (workers s ! t)"
  have crit: "in_critical ?p \<Longrightarrow> \<not> in_critical (th_pc (workers s ! u))"
    using M[of t] M[of u] t ne sh(1) by auto
  have i: "?p = PrAdvance \<longrightarrow> in_idx s' = in_idx s"
    using sh(10) crit by auto
  have o: "?p = CoAdvance \<longrightarrow> out s' = out s"
    using sh(11) crit by auto
  have "after_event s' e0 ?p" if "after_event s e0 ?p" for e0
    using after_event_frame[OF that i o] .
  with ok same bs show ?thesis
    by (auto simp: trace_ok_def Let_def split: if_splits)
qed

subsection \<open>Executions from the initial state\<close>

lemma chan_exec_snoc:
  "chan_exec (sched @ [(t, r)]) s =
     (case chan_exec sched s of
        None \<Rightarrow> None
      | Some (tr, s1) \<Rightarrow>
          (case chan_step t r s1 of
             Next (e, s2) \<Rightarrow> Some (tr @ [(t, e)], s2)
           | _ \<Rightarrow> None))"
proof (induction sched arbitrary: s)
  case Nil
  show ?case by (auto split: step.splits)
next
  case (Cons x sched)
  obtain u q where x: "x = (u, q)" by (cases x)
  show ?case using Cons.IH
    by (auto simp: x split: step.splits option.splits prod.splits)
qed

lemma events_of_snoc:
  "events_of t (tr @ [(u, e)]) = events_of t tr @ (if u = t then [e] else [])"
  by (simp add: events_of_def)

lemma chan_exec_inv:
  assumes "chan_inv s0" and "\<forall>t < length (workers s0). trace_ok s0 t []"
    and "chan_exec sched s0 = Some (tr, s)"
  shows "chan_inv s \<and> length (workers s) = length (workers s0) \<and>
         buffer_size s = buffer_size s0 \<and>
         (\<forall>t < length (workers s0).
            trace_ok s t (events_of t tr) \<and>
            producer_pc (th_pc (workers s ! t)) = producer_pc (th_pc (workers s0 ! t)))"
  using assms(3)
proof (induction sched arbitrary: tr s rule: rev_induct)
  case Nil
  with assms(1,2) show ?case by (simp add: events_of_def)
next
  case (snoc x sched)
  obtain u r where x: "x = (u, r)" by (cases x)
  from snoc.prems x obtain tr1 s1 e where ex: "chan_exec sched s0 = Some (tr1, s1)"
    and st: "chan_step u r s1 = Next (e, s)" and tr: "tr = tr1 @ [(u, e)]"
    by (auto simp: chan_exec_snoc split: option.splits step.splits)
  from snoc.IH[OF ex] have inv1: "chan_inv s1" and len1: "length (workers s1) = length (workers s0)"
    and bs1: "buffer_size s1 = buffer_size s0"
    and ok1: "\<And>t. t < length (workers s0) \<Longrightarrow> trace_ok s1 t (events_of t tr1)"
    and pp1: "\<And>t. t < length (workers s0) \<Longrightarrow>
            producer_pc (th_pc (workers s1 ! t)) = producer_pc (th_pc (workers s0 ! t))"
    by auto
  note sh = chan_step_shape[OF st]
  obtain th' where w: "workers s = (workers s1)[u := th']" using sh(2) by blast
  have len: "length (workers s) = length (workers s0)" using len1 by (simp add: w)
  have bs: "buffer_size s = buffer_size s0" using sh(3) bs1 by simp
  have "trace_ok s t (events_of t tr) \<and>
        producer_pc (th_pc (workers s ! t)) = producer_pc (th_pc (workers s0 ! t))"
    if t: "t < length (workers s0)" for t
  proof (cases "u = t")
    case True
    from trace_ok_self[OF st[unfolded True] ok1[OF t]] sh(9) pp1[OF t] True tr
    show ?thesis by (simp add: events_of_snoc)
  next
    case False
    from t len1 have t1: "t < length (workers s1)" by simp
    from False have "workers s ! t = workers s1 ! t" by (simp add: w)
    with trace_ok_other[OF inv1 st False t1 ok1[OF t]] pp1[OF t] False tr
    show ?thesis by (simp add: events_of_snoc)
  qed
  with chan_inv_step[OF inv1 st] len bs show ?case by blast
qed

lemma chan_init_inv:
  "chan_inv (chan_init np nc mem ipp)"
  by (auto simp: chan_inv_def chan_init_def in_progress_def nth_append)

lemma chan_init_trace_ok:
  "t < length (workers (chan_init np nc mem ipp)) \<Longrightarrow> trace_ok (chan_init np nc mem ipp) t []"
  by (auto simp: trace_ok_def Let_def chan_init_def nth_append)

text \<open>
  C1 (order of the operations of put and take). In every execution, under any schedule, the
  events of each producer follow one another as \<open>put_next\<close> prescribes: after the loop test
  and \<open>produce_item\<close>, the decrement of \<open>empty_slots\<close>, then the lock, then the store at \<open>in\<close>,
  then the advance of \<open>in\<close> to the next index modulo the capacity, then the unlock, then the
  increment of \<open>full_slots\<close>. The events of each consumer follow \<open>take_next\<close>, the mirror:
  decrement of \<open>full_slots\<close>, lock, load at \<open>out\<close>, advance of \<open>out\<close>, unlock, increment of
  \<open>empty_slots\<close>. A thread at its decrement with the semaphore at zero is blocked.
\<close>

theorem put_take_order:
  assumes "chan_exec sched (chan_init np nc mem ipp) = Some (tr, s)"
  shows "(\<forall>t. nc \<le> t \<and> t < nc + np \<longrightarrow>
            successively (put_next (length mem)) (events_of t tr) \<and>
            (events_of t tr \<noteq> [] \<longrightarrow> (\<exists>b. hd (events_of t tr) = Test b))) \<and>
         (\<forall>t < nc.
            successively (take_next (length mem)) (events_of t tr) \<and>
            (events_of t tr \<noteq> [] \<longrightarrow> hd (events_of t tr) = WaitSem FullSlots)) \<and>
         (\<forall>t r. t < nc + np \<and> th_pc (workers s ! t) = PrWaitEmpty \<and> empty_slots s = 0 \<longrightarrow>
            chan_step t r s = Blocked) \<and>
         (\<forall>t r. t < nc + np \<and> th_pc (workers s ! t) = CoWaitFull \<and> full_slots s = 0 \<longrightarrow>
            chan_step t r s = Blocked)"
proof -
  let ?s0 = "chan_init np nc mem ipp"
  have len0: "length (workers ?s0) = nc + np" by (simp add: chan_init_def)
  have bs0: "buffer_size ?s0 = length mem" by (simp add: chan_init_def)
  have ok0: "\<forall>t < length (workers ?s0). trace_ok ?s0 t []"
    using chan_init_trace_ok by blast
  from chan_exec_inv[OF chan_init_inv ok0 assms] len0 bs0
  have len: "length (workers s) = nc + np" and bs: "buffer_size s = length mem"
    and ok: "\<And>t. t < nc + np \<Longrightarrow> trace_ok s t (events_of t tr)"
    and pp: "\<And>t. t < nc + np \<Longrightarrow>
        producer_pc (th_pc (workers s ! t)) = producer_pc (th_pc (workers ?s0 ! t))"
    by auto
  have prod: "successively (put_next (length mem)) (events_of t tr) \<and>
            (events_of t tr \<noteq> [] \<longrightarrow> (\<exists>b. hd (events_of t tr) = Test b))"
    if "nc \<le> t" "t < nc + np" for t
  proof -
    from that have "producer_pc (th_pc (workers ?s0 ! t))"
      by (simp add: chan_init_def nth_append)
    with pp[OF that(2)] ok[OF that(2)] bs show ?thesis
      by (simp add: trace_ok_def Let_def)
  qed
  have cons: "successively (take_next (length mem)) (events_of t tr) \<and>
            (events_of t tr \<noteq> [] \<longrightarrow> hd (events_of t tr) = WaitSem FullSlots)"
    if "t < nc" for t
  proof -
    from that have "\<not> producer_pc (th_pc (workers ?s0 ! t))"
      by (simp add: chan_init_def nth_append)
    with pp[of t] ok[of t] that bs show ?thesis
      by (simp add: trace_ok_def Let_def)
  qed
  have b1: "chan_step t r s = Blocked"
    if "t < nc + np" "th_pc (workers s ! t) = PrWaitEmpty" "empty_slots s = 0" for t r
    using that len by (simp add: chan_step_def Let_def)
  have b2: "chan_step t r s = Blocked"
    if "t < nc + np" "th_pc (workers s ! t) = CoWaitFull" "full_slots s = 0" for t r
    using that len by (simp add: chan_step_def Let_def)
  from prod cons b1 b2 show ?thesis by blast
qed

text \<open>
  Capacity 2, one consumer (thread 0) and one producer (thread 1): the producer completes a
  put of the item 7 and the consumer is in the middle of taking it.
\<close>

theorem put_take_order_witness:
  "chan_exec [(1,17),(1,5007),(1,0),(1,0),(1,0),(1,0),(1,0),(1,0),(0,0),(0,0),(0,0),(0,0)]
     (chan_init 1 1 [0,0] 2) =
     Some ([(1, Test True), (1, Produce 7), (1, WaitSem EmptySlots), (1, LockMutex),
            (1, Store 0 7), (1, AdvanceIn 1), (1, UnlockMutex), (1, PostSem FullSlots),
            (0, WaitSem FullSlots), (0, LockMutex), (0, Load 0 7), (0, AdvanceOut 1)],
           \<lparr>buffer = [7, 0], buffer_size = 2, in_idx = 1, out = 1, empty_slots = 1,
            full_slots = 0, mutex_buffer = Some 0, items_to_produce = 2,
            workers = [\<lparr>th_pc = CoUnlock, th_i = 0, th_item = 7\<rparr>,
                       \<lparr>th_pc = PrSleep, th_i = 0, th_item = 7\<rparr>]\<rparr>) \<and>
   successively (put_next (length [0, 0 :: int]))
     [Test True, Produce 7, WaitSem EmptySlots, LockMutex, Store 0 7, AdvanceIn 1,
      UnlockMutex, PostSem FullSlots] \<and>
   successively (take_next (length [0, 0 :: int]))
     [WaitSem FullSlots, LockMutex, Load 0 7, AdvanceOut 1]"
proof -
  let ?tr = "[(1, Test True), (1, Produce 7), (1, WaitSem EmptySlots), (1, LockMutex),
            (1, Store 0 7), (1, AdvanceIn 1), (1, UnlockMutex), (1, PostSem FullSlots),
            (0, WaitSem FullSlots), (0, LockMutex), (0, Load 0 7), (0, AdvanceOut 1)]"
  let ?S = "\<lparr>buffer = [7, 0], buffer_size = 2, in_idx = 1, out = 1, empty_slots = 1,
            full_slots = 0, mutex_buffer = Some 0, items_to_produce = 2,
            workers = [\<lparr>th_pc = CoUnlock, th_i = 0, th_item = 7\<rparr>,
                       \<lparr>th_pc = PrSleep, th_i = 0, th_item = 7\<rparr>]\<rparr>"
  have run: "chan_exec [(1,17),(1,5007),(1,0),(1,0),(1,0),(1,0),(1,0),(1,0),(0,0),(0,0),(0,0),(0,0)]
     (chan_init 1 1 [0,0] 2) = Some (?tr, ?S)"
    by code_simp
  have e1: "events_of 1 ?tr = [Test True, Produce 7, WaitSem EmptySlots, LockMutex, Store 0 7,
      AdvanceIn 1, UnlockMutex, PostSem FullSlots]"
    and e0: "events_of 0 ?tr = [WaitSem FullSlots, LockMutex, Load 0 7, AdvanceOut 1]"
    by (simp_all add: events_of_def)
  from put_take_order[OF run]
  have "successively (put_next (length [0, 0 :: int])) (events_of 1 ?tr)"
    and "successively (take_next (length [0, 0 :: int])) (events_of 0 ?tr)"
    by simp_all
  with run e0 e1 show ?thesis by simp
qed

text \<open>
  C6 as amended. In every reachable state the two semaphore counts and the number of threads
  between their \<open>sem_wait\<close> and their \<open>sem_post\<close> add up to the capacity. So the sum of the
  counts never exceeds the capacity, and equals it whenever no put or take is in progress.
\<close>

theorem slots_conservation:
  assumes "chan_exec sched (chan_init np nc mem ipp) = Some (tr, s)"
  shows "full_slots s + empty_slots s + in_progress s = length mem \<and>
         full_slots s + empty_slots s \<le> length mem \<and>
         (in_progress s = 0 \<longrightarrow> full_slots s + empty_slots s = length mem)"
proof -
  let ?s0 = "chan_init np nc mem ipp"
  have ok0: "\<forall>t < length (workers ?s0). trace_ok ?s0 t []"
    using chan_init_trace_ok by blast
  from chan_exec_inv[OF chan_init_inv ok0 assms]
  have "chan_inv s" and "buffer_size s = length mem" by (simp_all add: chan_init_def)
  then have "full_slots s + empty_slots s + in_progress s = length mem"
    by (simp add: chan_inv_def)
  then show ?thesis by simp
qed

text \<open>
  C6 as stated fails during a put: with capacity 3, a producer that has returned from
  \<open>sem_wait(&empty_slots)\<close> and not yet called \<open>sem_post(&full_slots)\<close> leaves the counts at
  2 and 0.
\<close>

theorem slots_sum_counterexample:
  "chan_exec [(0,17),(0,17),(0,17)] (chan_init 1 0 [0,0,0] 1) =
     Some ([(0, Test True), (0, Produce 17), (0, WaitSem EmptySlots)],
           \<lparr>buffer = [0, 0, 0], buffer_size = 3, in_idx = 0, out = 0,
            empty_slots = 2, full_slots = 0, mutex_buffer = None, items_to_produce = 1,
            workers = [\<lparr>th_pc = PrLock, th_i = 0, th_item = 17\<rparr>]\<rparr>) \<and>
   full_slots \<lparr>buffer = [0, 0, 0], buffer_size = 3, in_idx = 0, out = 0,
            empty_slots = 2, full_slots = 0, mutex_buffer = None, items_to_produce = 1,
            workers = [\<lparr>th_pc = PrLock, th_i = 0, th_item = 17\<rparr>]\<rparr> +
   empty_slots \<lparr>buffer = [0, 0, 0], buffer_size = 3, in_idx = 0, out = 0,
            empty_slots = 2, full_slots = 0, mutex_buffer = None, items_to_produce = 1,
            workers = [\<lparr>th_pc = PrLock, th_i = 0, th_item = 17\<rparr>]\<rparr> \<noteq>
   buffer_size \<lparr>buffer = [0, 0, 0], buffer_size = 3, in_idx = 0, out = 0,
            empty_slots = 2, full_slots = 0, mutex_buffer = None, items_to_produce = 1,
            workers = [\<lparr>th_pc = PrLock, th_i = 0, th_item = 17\<rparr>]\<rparr>"
proof -
  have "chan_exec [(0,17),(0,17),(0,17)] (chan_init 1 0 [0,0,0] 1) =
     Some ([(0, Test True), (0, Produce 17), (0, WaitSem EmptySlots)],
           \<lparr>buffer = [0, 0, 0], buffer_size = 3, in_idx = 0, out = 0,
            empty_slots = 2, full_slots = 0, mutex_buffer = None, items_to_produce = 1,
            workers = [\<lparr>th_pc = PrLock, th_i = 0, th_item = 17\<rparr>]\<rparr>)"
    by code_simp
  then show ?thesis by simp
qed

text \<open>The same state, with one thread in progress, and the initial state, with none.\<close>

theorem slots_conservation_witness:
  "chan_exec [(0,17),(0,17),(0,17)] (chan_init 1 0 [0,0,0] 1) =
     Some ([(0, Test True), (0, Produce 17), (0, WaitSem EmptySlots)],
           \<lparr>buffer = [0, 0, 0], buffer_size = 3, in_idx = 0, out = 0,
            empty_slots = 2, full_slots = 0, mutex_buffer = None, items_to_produce = 1,
            workers = [\<lparr>th_pc = PrLock, th_i = 0, th_item = 17\<rparr>]\<rparr>) \<and>
   in_progress \<lparr>buffer = [0, 0, 0], buffer_size = 3, in_idx = 0, out = 0,
            empty_slots = 2, full_slots = 0, mutex_buffer = None, items_to_produce = 1,
            workers = [\<lparr>th_pc = PrLock, th_i = 0, th_item = 17\<rparr>]\<rparr> = 1 \<and>
   chan_exec [] (chan_init 1 0 [0,0,0] 1) = Some ([], chan_init 1 0 [0,0,0] 1) \<and>
   in_progress (chan_init 1 0 [0,0,0] 1) = 0 \<and>
   full_slots (chan_init 1 0 [0,0,0] 1) + empty_slots (chan_init 1 0 [0,0,0] 1) = length [0, 0, 0 :: int]"
proof -
  let ?S = "\<lparr>buffer = [0, 0, 0], buffer_size = 3, in_idx = 0, out = 0,
            empty_slots = 2, full_slots = 0, mutex_buffer = None, items_to_produce = 1,
            workers = [\<lparr>th_pc = PrLock, th_i = 0, th_item = 17\<rparr>]\<rparr>"
  have run: "chan_exec [(0,17),(0,17),(0,17)] (chan_init 1 0 [0,0,0] 1) =
     Some ([(0, Test True), (0, Produce 17), (0, WaitSem EmptySlots)], ?S)"
    by code_simp
  have run0: "chan_exec [] (chan_init 1 0 [0,0,0] 1) = Some ([], chan_init 1 0 [0,0,0] 1)"
    by simp
  have z: "in_progress (chan_init 1 0 [0,0,0] 1) = 0"
    by (simp add: in_progress_def chan_init_def)
  from slots_conservation[OF run] have a: "in_progress ?S = 1" by simp
  from slots_conservation[OF run0] z
  have b: "full_slots (chan_init 1 0 [0,0,0] 1) + empty_slots (chan_init 1 0 [0,0,0] 1) =
           length [0, 0, 0 :: int]" by blast
  from run a run0 z b show ?thesis by blast
qed

section \<open>Start-up: verification\<close>







end
